theory Spec2Isabelle
  imports Complex_Main
begin

section \<open>Python strings and dictionaries\<close>

text \<open>
  A Python \<open>str\<close> is modelled as a \<open>string\<close>, each \<open>char\<close> standing for one code point
  below 256. \<open>split_from\<close> is \<open>str.split(sep)\<close> for a one-character separator: it scans
  the text, \<open>cur\<close> being the part collected since the last separator, and always returns
  at least one part.
\<close>

fun split_from :: "char \<Rightarrow> string \<Rightarrow> string \<Rightarrow> string list" where
  "split_from c cur [] = [cur]"
| "split_from c cur (x # xs) =
     (if x = c then cur # split_from c [] xs else split_from c (cur @ [x]) xs)"

definition py_split :: "string \<Rightarrow> char \<Rightarrow> string list" where
  "py_split s c = split_from c [] s"

text \<open>\<open>str.lstrip(chars)\<close> and \<open>str.rstrip(chars)\<close>: drop the leading (trailing)
  characters that belong to \<open>chars\<close>.\<close>

definition lstrip_chars :: "string \<Rightarrow> string \<Rightarrow> string" where
  "lstrip_chars chars s = dropWhile (\<lambda>c. c \<in> set chars) s"

definition rstrip_chars :: "string \<Rightarrow> string \<Rightarrow> string" where
  "rstrip_chars chars s = rev (dropWhile (\<lambda>c. c \<in> set chars) (rev s))"

text \<open>\<open>str.isspace\<close> on one code point below 256, and \<open>str.strip()\<close> with no argument.\<close>

definition py_isspace :: "char \<Rightarrow> bool" where
  "py_isspace c = (of_char c \<in> {9, 10, 11, 12, 13, 28, 29, 30, 31, 32, 133, 160 :: nat})"

definition py_strip :: "string \<Rightarrow> string" where
  "py_strip s = rev (dropWhile py_isspace (rev (dropWhile py_isspace s)))"

text \<open>
  A Python \<open>dict\<close> keeps its keys in insertion order: it is an association list.
  \<open>dict_set\<close> is the assignment \<open>d[k] = v\<close>: an existing key keeps its place and takes the
  new value, a new key goes to the end. \<open>dict_keys\<close> is \<open>d.keys()\<close>, \<open>map_of d k\<close> the
  lookup.
\<close>

fun dict_set :: "('k \<times> 'v) list \<Rightarrow> 'k \<Rightarrow> 'v \<Rightarrow> ('k \<times> 'v) list" where
  "dict_set [] k v = [(k, v)]"
| "dict_set ((k', v') # d) k v =
     (if k' = k then (k, v) # d else (k', v') # dict_set d k v)"

definition dict_keys :: "('k \<times> 'v) list \<Rightarrow> 'k list" where
  "dict_keys d = map fst d"

section \<open>migrate_artworks.py\<close>

datatype py_error = ValueError string

text \<open>\<open>normalize_table_name\<close>: \<open>(schema, table)\<close>, the schema \<open>None\<close> when the name is not
  qualified; a name of three parts or more raises \<open>ValueError\<close>.\<close>

definition normalize_table_name :: "string \<Rightarrow> py_error + (string option \<times> string)" where
  "normalize_table_name table =
     (let parts = py_split table (CHR ''.'') in
      if length parts = 1 then Inr (None, parts ! 0)
      else if length parts = 2 then Inr (Some (parts ! 0), parts ! 1)
      else Inl (ValueError (''Invalid table name: '' @ table)))"

text \<open>
  \<open>build_mapping\<close>. \<open>exclude_set_of\<close> is its first line,
  \<^verbatim>\<open>{c.strip() for c in excludes if c and c.strip()}\<close>; \<open>explicit_loop\<close> and
  \<open>same_name_loop\<close> are its two \<open>for\<close> loops, the mapping built so far as the last
  argument. \<open>explicit_map\<close> is a dictionary, given by its items in order.
\<close>

definition exclude_set_of :: "string list \<Rightarrow> string set" where
  "exclude_set_of excludes =
     set (map py_strip (filter (\<lambda>c. c \<noteq> [] \<and> py_strip c \<noteq> []) excludes))"

fun explicit_loop ::
  "string set \<Rightarrow> string set \<Rightarrow> (string \<times> string) list \<Rightarrow> (string \<times> string) list
     \<Rightarrow> (string \<times> string) list" where
  "explicit_loop exclude_set dest_set [] mapping = mapping"
| "explicit_loop exclude_set dest_set ((src, dst) # items) mapping =
     (if src \<in> exclude_set then explicit_loop exclude_set dest_set items mapping
      else if dst \<in> dest_set
        then explicit_loop exclude_set dest_set items (dict_set mapping src dst)
      else explicit_loop exclude_set dest_set items mapping)"

fun same_name_loop ::
  "string set \<Rightarrow> string set \<Rightarrow> string list \<Rightarrow> (string \<times> string) list
     \<Rightarrow> (string \<times> string) list" where
  "same_name_loop exclude_set dest_set [] mapping = mapping"
| "same_name_loop exclude_set dest_set (src # cols) mapping =
     (if src \<in> set (dict_keys mapping) then same_name_loop exclude_set dest_set cols mapping
      else if src \<in> exclude_set then same_name_loop exclude_set dest_set cols mapping
      else if src \<in> dest_set
        then same_name_loop exclude_set dest_set cols (dict_set mapping src src)
      else same_name_loop exclude_set dest_set cols mapping)"

definition build_mapping ::
  "string list \<Rightarrow> string list \<Rightarrow> (string \<times> string) list \<Rightarrow> string list
     \<Rightarrow> (string \<times> string) list" where
  "build_mapping source_columns dest_columns explicit_map excludes =
     (let exclude_set = exclude_set_of excludes;
          dest_set = set dest_columns;
          mapping = explicit_loop exclude_set dest_set explicit_map []
      in same_name_loop exclude_set dest_set source_columns mapping)"

text \<open>
  The mapping \<open>main\<close> works with: the call of \<open>build_mapping\<close> and the statement after it
  that adds the id column when it is in both tables and not yet a key.
\<close>

definition main_mapping ::
  "string \<Rightarrow> string list \<Rightarrow> string list \<Rightarrow> (string \<times> string) list \<Rightarrow> string list
     \<Rightarrow> (string \<times> string) list" where
  "main_mapping id_column src_columns dst_columns explicit_map exclude_columns =
     (let mapping = build_mapping src_columns dst_columns explicit_map exclude_columns
      in if id_column \<notin> set (dict_keys mapping) \<and> id_column \<in> set src_columns
            \<and> id_column \<in> set dst_columns
         then dict_set mapping id_column id_column
         else mapping)"

text \<open>
  \<open>chunked\<close>: \<open>chunked_loop\<close> is the \<open>for\<close> loop with the \<open>batch\<close> under construction,
  and its first equation the statement after the loop, which yields a non-empty rest.
  The size \<open>sz\<close> is a Python integer.
\<close>

fun chunked_loop :: "'a list \<Rightarrow> int \<Rightarrow> 'a list \<Rightarrow> 'a list list" where
  "chunked_loop [] sz batch = (if batch \<noteq> [] then [batch] else [])"
| "chunked_loop (item # rest) sz batch =
     (if int (length (batch @ [item])) \<ge> sz
      then (batch @ [item]) # chunked_loop rest sz []
      else chunked_loop rest sz (batch @ [item]))"

definition chunked :: "'a list \<Rightarrow> int \<Rightarrow> 'a list list" where
  "chunked iterable sz = chunked_loop iterable sz []"

text \<open>
  \<open>select_source_rows\<close>. The server-side cursor is the list of the rows of the query's
  result that are not yet fetched. \<open>fetchmany\<close> returns the next \<open>sz\<close> of them (psycopg
  reads the size 0 as the cursor's \<open>arraysize\<close>, which is 1), and the cursor moves past
  them. \<open>select_loop\<close> is the \<open>while True\<close> loop: it stops at the first empty fetch.
\<close>

definition fetch_size :: "nat \<Rightarrow> nat" where
  "fetch_size sz = (if sz = 0 then 1 else sz)"

definition fetchmany :: "'r list \<Rightarrow> nat \<Rightarrow> 'r list \<times> 'r list" where
  "fetchmany cur sz = (take (fetch_size sz) cur, drop (fetch_size sz) cur)"

function select_loop :: "'r list \<Rightarrow> nat \<Rightarrow> 'r list list" where
  "select_loop cur batch_size =
     (if fst (fetchmany cur batch_size) = [] then []
      else fst (fetchmany cur batch_size) # select_loop (snd (fetchmany cur batch_size)) batch_size)"
  by pat_completeness auto
termination
  by (relation "measure (\<lambda>(cur, batch_size). length cur)")
     (auto simp: fetchmany_def fetch_size_def split: if_splits)

definition select_source_rows :: "'r list \<Rightarrow> nat \<Rightarrow> 'r list list" where
  "select_source_rows result_set batch_size = select_loop result_set batch_size"

text \<open>
  What it means for \<open>bs\<close> to be the batches of \<open>rows\<close> at batch size \<open>n\<close>: there are
  \<open>\<lceil>length rows / n\<rceil>\<close> of them, none longer than \<open>n\<close>, all but the last of length
  \<open>n\<close>, and together, in order, they are \<open>rows\<close>.
\<close>

definition batches_of :: "nat \<Rightarrow> 'a list \<Rightarrow> 'a list list \<Rightarrow> bool" where
  "batches_of n rows bs \<longleftrightarrow>
     int (length bs) = \<lceil>real (length rows) / real n\<rceil> \<and>
     (\<forall>b \<in> set bs. length b \<le> n) \<and>
     (\<forall>b \<in> set (butlast bs). length b = n) \<and>
     concat bs = rows"

text \<open>
  The rows of \<open>migrate_artworks.py\<close>. A value of a row (\<open>Any\<close>) is one of the scalars the
  database hands out; a \<open>Decimal\<close> keeps its digits and its exponent. A row is a
  dictionary from column names to values, and \<open>row_get\<close> is \<open>r.get(s)\<close>, which is \<open>None\<close>
  for a missing key.
\<close>

datatype pyval = PNone | PInt int | PStr string | PBool bool | PDecimal int int

type_synonym row = "(string \<times> pyval) list"

definition row_get :: "row \<Rightarrow> string \<Rightarrow> pyval" where
  "row_get r s = (case map_of r s of None \<Rightarrow> PNone | Some v \<Rightarrow> v)"

fun adapt_value :: "pyval \<Rightarrow> pyval" where
  "adapt_value (PDecimal m e) = PDecimal m e"
| "adapt_value v = v"

text \<open>
  The destination, as far as \<open>upsert_rows\<close> and \<open>main\<close> use it. This is a reference model
  of the row sink, not code of the repository: one table with its columns, the columns
  of its one unique constraint (its primary key; none when the list is empty), and its
  rows, each holding a value for every column. A connection (with \<open>autocommit\<close> off) sees
  the table as its open transaction has changed it (\<open>working\<close>); \<open>commit\<close> makes that
  durable (\<open>committed\<close>) and \<open>rollback\<close> returns to the durable table.
\<close>

record table =
  tcolumns :: "string list"
  tkey :: "string list"
  trows :: "row list"

record connection =
  committed :: table
  working :: table

definition connect :: "table \<Rightarrow> connection" where
  "connect t = \<lparr>committed = t, working = t\<rparr>"

definition commit :: "connection \<Rightarrow> connection" where
  "commit conn = conn\<lparr>committed := working conn\<rparr>"

definition rollback :: "connection \<Rightarrow> connection" where
  "rollback conn = conn\<lparr>working := committed conn\<rparr>"

text \<open>
  The statement \<open>upsert_rows\<close> builds is \<open>insert into dest_table (dst_cols) values (...)\<close>
  followed by a conflict clause; the model keeps its parts instead of its text:
  no clause, \<open>on conflict (target) do nothing\<close>, or
  \<open>on conflict (target) do update set c = EXCLUDED.c\<close> for the listed columns.
\<close>

datatype conflict_clause =
  NoClause
| DoNothing "string list"
| DoUpdate "string list" "string list"

datatype db_error = StatementRejected | NotNullViolation | UniqueViolation

text \<open>
  The database rejects the statement when it names no column, an unknown column or a
  column twice, and when its conflict clause names a target that is not the columns
  of the unique constraint, or updates no column.
\<close>

definition target_ok :: "table \<Rightarrow> string list \<Rightarrow> bool" where
  "target_ok t target \<longleftrightarrow> target \<noteq> [] \<and> set target = set (tkey t)"

fun clause_ok :: "table \<Rightarrow> conflict_clause \<Rightarrow> bool" where
  "clause_ok t NoClause = True"
| "clause_ok t (DoNothing target) = target_ok t target"
| "clause_ok t (DoUpdate target assigns) = (target_ok t target \<and> assigns \<noteq> [])"

definition statement_ok :: "table \<Rightarrow> string list \<Rightarrow> conflict_clause \<Rightarrow> bool" where
  "statement_ok t cols clause \<longleftrightarrow>
     cols \<noteq> [] \<and> set cols \<subseteq> set (tcolumns t) \<and> distinct cols \<and> clause_ok t clause"

text \<open>
  Inserting one tuple of values for the columns \<open>cols\<close>. The new row has the tuple's
  values and \<open>NULL\<close> in the other columns. It conflicts with a stored row that has the
  same values in the columns of the unique constraint. Without a conflict it is
  appended; with one, the statement's clause decides: no clause raises the unique
  violation, \<open>do nothing\<close> leaves the table as it is, \<open>do update\<close> overwrites the listed
  columns of the stored row.
\<close>

definition new_row :: "table \<Rightarrow> string list \<Rightarrow> pyval list \<Rightarrow> row" where
  "new_row t cols vals = map (\<lambda>c. (c, row_get (zip cols vals) c)) (tcolumns t)"

definition key_of :: "table \<Rightarrow> row \<Rightarrow> pyval list" where
  "key_of t r = map (row_get r) (tkey t)"

definition conflicts :: "table \<Rightarrow> row \<Rightarrow> bool" where
  "conflicts t r \<longleftrightarrow> tkey t \<noteq> [] \<and> key_of t r \<in> set (map (key_of t) (trows t))"

definition overwrite :: "string list \<Rightarrow> row \<Rightarrow> row \<Rightarrow> row" where
  "overwrite assigns r u = map (\<lambda>(c, v). (c, if c \<in> set assigns then row_get r c else v)) u"

definition insert_row ::
  "table \<Rightarrow> string list \<Rightarrow> conflict_clause \<Rightarrow> pyval list \<Rightarrow> db_error + table" where
  "insert_row t cols clause vals =
     (let r = new_row t cols vals in
      if PNone \<in> set (key_of t r) then Inl NotNullViolation
      else if \<not> conflicts t r then Inr (t\<lparr>trows := trows t @ [r]\<rparr>)
      else (case clause of
              NoClause \<Rightarrow> Inl UniqueViolation
            | DoNothing target \<Rightarrow> Inr t
            | DoUpdate target assigns \<Rightarrow>
                Inr (t\<lparr>trows := map (\<lambda>u. if key_of t u = key_of t r
                                          then overwrite assigns r u else u) (trows t)\<rparr>)))"

text \<open>
  \<open>cur.executemany(sql, values)\<close> runs the statement once for each tuple, in order, in
  the open transaction, and raises at the first tuple that fails.
\<close>

fun insert_all ::
  "table \<Rightarrow> string list \<Rightarrow> conflict_clause \<Rightarrow> pyval list list \<Rightarrow> table \<times> db_error option"
  where
  "insert_all t cols clause [] = (t, None)"
| "insert_all t cols clause (vals # rest) =
     (case insert_row t cols clause vals of
        Inl e \<Rightarrow> (t, Some e)
      | Inr t' \<Rightarrow> insert_all t' cols clause rest)"

definition executemany ::
  "connection \<Rightarrow> string list \<Rightarrow> conflict_clause \<Rightarrow> pyval list list
     \<Rightarrow> connection \<times> db_error option" where
  "executemany conn cols clause vals =
     (if vals = [] then (conn, None)
      else if \<not> statement_ok (working conn) cols clause then (conn, Some StatementRejected)
      else (case insert_all (working conn) cols clause vals of
              (t, e) \<Rightarrow> (conn\<lparr>working := t\<rparr>, e)))"

text \<open>
  \<open>upsert_rows\<close>. The connection is the destination connection and holds the table that
  \<open>dest_table\<close> names. \<open>dst_cols\<close>, the list of \<open>mapping[s]\<close> for the keys \<open>s\<close> in order, is
  the list of the mapping's values. \<open>conflict_sql_of\<close> is the choice of the conflict
  clause by \<open>on_conflict\<close>, and \<open>project_rows\<close> the loop that fills \<open>values\<close>. An
  exception of the database leaves the function as the error, with the connection as
  the failed call left it.
\<close>

definition conflict_sql_of :: "string \<Rightarrow> string list \<Rightarrow> string list \<Rightarrow> conflict_clause" where
  "conflict_sql_of on_conflict conflict_target dst_cols =
     (if on_conflict = ''skip'' then DoNothing conflict_target
      else if on_conflict = ''update''
        then DoUpdate conflict_target (filter (\<lambda>c. c \<notin> set conflict_target) dst_cols)
      else NoClause)"

definition project_rows :: "string list \<Rightarrow> row list \<Rightarrow> pyval list list" where
  "project_rows src_cols rows = map (\<lambda>r. map (\<lambda>s. adapt_value (row_get r s)) src_cols) rows"

definition upsert_rows ::
  "connection \<Rightarrow> string \<Rightarrow> (string \<times> string) list \<Rightarrow> row list \<Rightarrow> string \<Rightarrow> string list
     \<Rightarrow> bool \<Rightarrow> connection \<times> (db_error + nat \<times> nat)" where
  "upsert_rows conn dest_table mapping rows on_conflict conflict_target dry_run =
     (if rows = [] then (conn, Inr (0, 0))
      else
        let src_cols = dict_keys mapping;
            dst_cols = map snd mapping;
            conflict_sql = conflict_sql_of on_conflict conflict_target dst_cols;
            vals = project_rows src_cols rows
        in if dry_run then (conn, Inr (0, 0))
           else (case executemany conn dst_cols conflict_sql vals of
                   (conn', Some e) \<Rightarrow> (conn', Inl e)
                 | (conn', None) \<Rightarrow> (conn', Inr (length vals, 0))))"

text \<open>
  What \<open>upsert_rows\<close> has built when it reaches its dry-run test: the text of the
  statement (\<open>sql\<close>), the parts of the statement that the text spells, and the projected
  tuples (\<open>values\<close>). \<open>py_join\<close> is \<open>sep.join(xs)\<close>, \<open>quoted\<close> puts a name between double
  quotes, \<open>conflict_text\<close> is the text of \<open>conflict_sql\<close> and \<open>sql_text\<close> the formatted
  statement, line breaks and indentation included (\<open>returning\<close> is always empty).
  \<open>prepare\<close> is the part of \<open>upsert_rows\<close> from \<open>src_cols\<close> to the loop that fills \<open>values\<close>.
\<close>

fun py_join :: "string \<Rightarrow> string list \<Rightarrow> string" where
  "py_join sep [] = []"
| "py_join sep [x] = x"
| "py_join sep (x # y # ys) = x @ sep @ py_join sep (y # ys)"

definition quoted :: "string \<Rightarrow> string" where
  "quoted c = [CHR 0x22] @ c @ [CHR 0x22]"

definition conflict_text :: "string \<Rightarrow> string list \<Rightarrow> string list \<Rightarrow> string" where
  "conflict_text on_conflict conflict_target dst_cols =
     (if on_conflict = ''skip''
      then ''on conflict ('' @ py_join '', '' conflict_target @ '') do nothing''
      else if on_conflict = ''update''
        then ''on conflict ('' @ py_join '', '' conflict_target @ '') do update set ''
               @ py_join '', ''
                   (map (\<lambda>c. quoted c @ '' = EXCLUDED.'' @ quoted c)
                      (filter (\<lambda>c. c \<notin> set conflict_target) dst_cols))
      else [])"

definition sql_text :: "string \<Rightarrow> string list \<Rightarrow> string \<Rightarrow> string list \<Rightarrow> string" where
  "sql_text dest_table dst_cols on_conflict conflict_target =
     [CHR 0x0A] @ ''        insert into '' @ dest_table
       @ '' ('' @ py_join '', '' (map quoted dst_cols) @ '')''
     @ [CHR 0x0A] @ ''        values ('' @ py_join '', '' (replicate (length dst_cols) ''%s'')
       @ '')''
     @ [CHR 0x0A] @ ''        '' @ conflict_text on_conflict conflict_target dst_cols
     @ [CHR 0x0A] @ ''        '' @ []
     @ [CHR 0x0A] @ ''    ''"

record prepared =
  built_sql :: string
  built_cols :: "string list"
  built_clause :: conflict_clause
  built_values :: "pyval list list"

definition prepare ::
  "string \<Rightarrow> (string \<times> string) list \<Rightarrow> row list \<Rightarrow> string \<Rightarrow> string list \<Rightarrow> prepared" where
  "prepare dest_table mapping rows on_conflict conflict_target =
     (let src_cols = dict_keys mapping;
          dst_cols = map snd mapping
      in \<lparr>built_sql = sql_text dest_table dst_cols on_conflict conflict_target,
          built_cols = dst_cols,
          built_clause = conflict_sql_of on_conflict conflict_target dst_cols,
          built_values = project_rows src_cols rows\<rparr>)"

text \<open>
  \<open>upsert_rows_steps\<close> is \<open>upsert_rows\<close> with a third result that tells how far the call
  went before it returned: \<open>None\<close> when it returned at the test for an empty batch,
  before anything was built, and the statement and values it had built otherwise.
\<close>

definition upsert_rows_steps ::
  "connection \<Rightarrow> string \<Rightarrow> (string \<times> string) list \<Rightarrow> row list \<Rightarrow> string \<Rightarrow> string list
     \<Rightarrow> bool \<Rightarrow> connection \<times> (db_error + nat \<times> nat) \<times> prepared option" where
  "upsert_rows_steps conn dest_table mapping rows on_conflict conflict_target dry_run =
     (if rows = [] then (conn, Inr (0, 0), None)
      else
        let p = prepare dest_table mapping rows on_conflict conflict_target
        in if dry_run then (conn, Inr (0, 0), Some p)
           else (case executemany conn (built_cols p) (built_clause p) (built_values p) of
                   (conn', Some e) \<Rightarrow> (conn', Inl e, Some p)
                 | (conn', None) \<Rightarrow> (conn', Inr (length (built_values p), 0), Some p)))"

text \<open>
  The loop of \<open>main\<close> over the batches, with its two counters: each batch is handed to
  \<open>upsert_rows\<close> and, unless this is a dry run, committed. An exception ends the loop.
\<close>

fun migrate_loop ::
  "connection \<Rightarrow> string \<Rightarrow> (string \<times> string) list \<Rightarrow> row list list \<Rightarrow> string
     \<Rightarrow> string list \<Rightarrow> bool \<Rightarrow> nat \<Rightarrow> nat \<Rightarrow> connection \<times> (db_error + nat \<times> nat)" where
  "migrate_loop conn dest_table mapping [] on_conflict conflict_target dry_run
     migrated would_migrate = (conn, Inr (migrated, would_migrate))"
| "migrate_loop conn dest_table mapping (batch # batches) on_conflict conflict_target dry_run
     migrated would_migrate =
     (case upsert_rows conn dest_table mapping batch on_conflict conflict_target dry_run of
        (conn', Inl e) \<Rightarrow> (conn', Inl e)
      | (conn', Inr (inserted, _)) \<Rightarrow>
          migrate_loop (if \<not> dry_run then commit conn' else conn') dest_table mapping batches
            on_conflict conflict_target dry_run (migrated + inserted)
            (would_migrate + length batch))"

text \<open>
  The block \<open>with psycopg.connect(args.dest_dsn) as dst_conn\<close> around that loop: the
  connection is opened on the destination as it stands; when the block is left by an
  exception the open transaction is rolled back and the exception goes on to the
  caller, otherwise the transaction is committed. \<open>run_batches\<close> is the block for given
  batches, \<open>main_migrate\<close> with the batches read from the source's result set.
\<close>

definition run_batches ::
  "table \<Rightarrow> string \<Rightarrow> (string \<times> string) list \<Rightarrow> row list list \<Rightarrow> string \<Rightarrow> string list
     \<Rightarrow> bool \<Rightarrow> connection \<times> (db_error + nat \<times> nat)" where
  "run_batches dest dest_table mapping batches on_conflict conflict_target dry_run =
     (case migrate_loop (connect dest) dest_table mapping batches on_conflict
             conflict_target dry_run 0 0 of
        (conn, Inl e) \<Rightarrow> (rollback conn, Inl e)
      | (conn, Inr counts) \<Rightarrow> (commit conn, Inr counts))"

definition main_migrate ::
  "table \<Rightarrow> string \<Rightarrow> (string \<times> string) list \<Rightarrow> row list \<Rightarrow> nat \<Rightarrow> string \<Rightarrow> string list
     \<Rightarrow> bool \<Rightarrow> connection \<times> (db_error + nat \<times> nat)" where
  "main_migrate dest dest_table mapping result_set batch_size on_conflict conflict_target
     dry_run =
     run_batches dest dest_table mapping (select_source_rows result_set batch_size)
       on_conflict conflict_target dry_run"

text \<open>
  A batch holds a conflicting row when the row that some row of the batch becomes in
  the destination conflicts with a row the table holds.
\<close>

definition incoming :: "table \<Rightarrow> (string \<times> string) list \<Rightarrow> row \<Rightarrow> row" where
  "incoming t mapping r =
     new_row t (map snd mapping) (map (\<lambda>s. adapt_value (row_get r s)) (dict_keys mapping))"

definition batch_conflicts :: "table \<Rightarrow> (string \<times> string) list \<Rightarrow> row list \<Rightarrow> bool" where
  "batch_conflicts t mapping batch \<longleftrightarrow> list_ex (\<lambda>r. conflicts t (incoming t mapping r)) batch"

text \<open>
  A small destination and mapping for the examples: a table of artworks keyed by \<open>id\<close>
  that holds one row.
\<close>

definition example_dest :: table where
  "example_dest = \<lparr>tcolumns = [''id'', ''title''], tkey = [''id''],
     trows = [[(''id'', PInt 1), (''title'', PStr ''old'')]]\<rparr>"

definition example_mapping :: "(string \<times> string) list" where
  "example_mapping = [(''id'', ''id''), (''title'', ''title'')]"

section \<open>migrate_images.py\<close>

definition join_url :: "string \<Rightarrow> string \<Rightarrow> string" where
  "join_url prefix path = rstrip_chars ''/'' prefix @ ''/'' @ lstrip_chars ''/'' path"

text \<open>
  Text helpers of \<open>migrate_images.py\<close>: the decimal text of an integer (\<open>str(n)\<close>), the
  test \<open>sub in s\<close>, \<open>s.replace(old, new)\<close> for a non-empty \<open>old\<close>, and the functions of
  \<open>os.path\<close> on POSIX paths.
\<close>

function str_nat :: "nat \<Rightarrow> string" where
  "str_nat n = (if n < 10 then [''0123456789'' ! n]
                else str_nat (n div 10) @ [''0123456789'' ! (n mod 10)])"
  by pat_completeness auto
termination
  by (relation "measure (\<lambda>n. n)") auto

definition str_int :: "int \<Rightarrow> string" where
  "str_int i = (if i < 0 then CHR ''-'' # str_nat (nat (- i)) else str_nat (nat i))"

definition startswith :: "string \<Rightarrow> string \<Rightarrow> bool" where
  "startswith s p \<longleftrightarrow> take (length p) s = p"

fun contains :: "string \<Rightarrow> string \<Rightarrow> bool" where
  "contains sub [] = (sub = [])"
| "contains sub (c # s) = (startswith (c # s) sub \<or> contains sub s)"

function py_replace :: "string \<Rightarrow> string \<Rightarrow> string \<Rightarrow> string" where
  "py_replace old new s =
     (if s = [] \<or> old = [] then s
      else if startswith s old then new @ py_replace old new (drop (length old) s)
      else hd s # py_replace old new (tl s))"
  by pat_completeness auto
termination
  by (relation "measure (\<lambda>(old, new, s). length s)") auto

definition path_join :: "string \<Rightarrow> string \<Rightarrow> string" where
  "path_join a b =
     (if startswith b ''/'' then b
      else if a = [] \<or> last a = CHR ''/'' then a @ b
      else a @ ''/'' @ b)"

definition dirname :: "string \<Rightarrow> string" where
  "dirname p =
     (let head = rev (dropWhile (\<lambda>c. c \<noteq> CHR ''/'') (rev p)) in
      if head \<noteq> [] \<and> head \<noteq> replicate (length head) (CHR ''/'')
      then rstrip_chars ''/'' head else head)"

definition basename :: "string \<Rightarrow> string" where
  "basename p = rev (takeWhile (\<lambda>c. c \<noteq> CHR ''/'') (rev p))"

text \<open>
  \<open>ImageRow\<close> and the arguments of the command line that \<open>main\<close> reads. An argument
  without a default is \<open>None\<close> when it is not given; \<open>given\<close> is the value of such an
  argument where Python takes it as true (neither \<open>None\<close> nor empty).
\<close>

record image_row =
  image_id :: int
  artwork_id :: string
  image_path :: string
  is_main_image :: bool

record args =
  source_dsn :: "string option"
  fetch_prefix :: "string option"
  save_dir :: string
  upload_prefix :: "string option"
  upload_url :: "string option"
  cookie :: "string option"
  upload_field_file :: string
  upload_field_is_main :: string
  dry_run :: bool
  skip_download :: bool
  cleanup :: bool

definition given :: "string option \<Rightarrow> string option" where
  "given x = (case x of None \<Rightarrow> None | Some s \<Rightarrow> if s = [] then None else Some s)"

text \<open>\<open>ensure_prereqs\<close>: the message of the \<open>SystemExit\<close> it raises, or \<open>None\<close> when it returns.\<close>

definition ensure_prereqs :: "args \<Rightarrow> string option" where
  "ensure_prereqs a =
     (if given (source_dsn a) = None then Some ''Missing --source-dsn or SOURCE_DB_DSN''
      else if given (fetch_prefix a) = None
        then Some ''Missing --fetch-prefix or FETCH_PREFIX (needed to download images).''
      else if given (upload_prefix a) = None \<and>
              \<not> (case given (upload_url a) of
                    None \<Rightarrow> False
                  | Some u \<Rightarrow> contains ''{artwork_id}'' u)
        then Some (''Provide --upload-prefix, or --upload-url containing ''
                   @ [CHR 0x27] @ ''{artwork_id}'' @ [CHR 0x27] @ ''.'')
      else if given (cookie a) = None
        then Some ''Missing --cookie or COOKIE (needed for authenticated upload).''
      else None)"

text \<open>
  The operating system and the network, as the script uses them: the directory of the
  script, \<open>os.path.exists\<close>, \<open>os.makedirs(..., exist_ok=True)\<close>, \<open>subprocess.run\<close> and
  \<open>os.remove\<close>. They are parameters: a world \<open>'w\<close> and what each call does to it and
  returns, an exception as its message. The state of a run is the world, the calls made
  so far in order (a command that a dry run only prints is an \<open>Echo\<close>), the four
  counters of \<open>main\<close> and the lines written to the standard error.
\<close>

record 'w os =
  script_dir :: string
  path_exists :: "'w \<Rightarrow> string \<Rightarrow> bool"
  makedirs :: "'w \<Rightarrow> string \<Rightarrow> 'w \<times> string option"
  subprocess_run :: "'w \<Rightarrow> string list \<Rightarrow> 'w \<times> (string + int \<times> string \<times> string)"
  remove :: "'w \<Rightarrow> string \<Rightarrow> 'w \<times> string option"

datatype call = Makedirs string | Run "string list" | Echo "string list" | Remove string

record 'w state =
  world :: 'w
  calls :: "call list"
  total :: nat
  downloaded :: nat
  uploaded :: nat
  skipped_download :: nat
  errors :: "string list"

datatype py_exn = OSError string | RuntimeError string | AttributeError string

fun exn_str :: "py_exn \<Rightarrow> string" where
  "exn_str (OSError m) = m"
| "exn_str (RuntimeError m) = m"
| "exn_str (AttributeError m) = m"

definition abs_scripts_path :: "'w os \<Rightarrow> string \<Rightarrow> string" where
  "abs_scripts_path os part = path_join (script_dir os) part"

text \<open>\<open>run_curl\<close>: a dry run prints the command and reports success; otherwise the command
  is run and its exit code and output returned.\<close>

definition run_curl ::
  "'w os \<Rightarrow> string list \<Rightarrow> bool \<Rightarrow> 'w state
     \<Rightarrow> 'w state \<times> (py_exn + int \<times> string \<times> string)" where
  "run_curl os args_list dry s =
     (if dry then (s\<lparr>calls := calls s @ [Echo args_list]\<rparr>, Inr (0, [], []))
      else (case subprocess_run os (world s) args_list of
              (w, Inl m) \<Rightarrow> (s\<lparr>world := w, calls := calls s @ [Run args_list]\<rparr>, Inl (OSError m))
            | (w, Inr r) \<Rightarrow> (s\<lparr>world := w, calls := calls s @ [Run args_list]\<rparr>, Inr r)))"

definition failure_text :: "string \<Rightarrow> string \<Rightarrow> string" where
  "failure_text err out = (if py_strip err \<noteq> [] then py_strip err else py_strip out)"

definition download_cmd :: "string \<Rightarrow> string \<Rightarrow> string list" where
  "download_cmd fetch_url dest_path = [''curl'', ''-sS'', ''-fL'', fetch_url, ''-o'', dest_path]"

definition download_image ::
  "'w os \<Rightarrow> string \<Rightarrow> string \<Rightarrow> bool \<Rightarrow> 'w state \<Rightarrow> 'w state \<times> py_exn option" where
  "download_image os fetch_url dest_path dry s =
     (case makedirs os (world s) (dirname dest_path) of
        (w, Some m) \<Rightarrow>
          (s\<lparr>world := w, calls := calls s @ [Makedirs (dirname dest_path)]\<rparr>, Some (OSError m))
      | (w, None) \<Rightarrow>
          (case run_curl os (download_cmd fetch_url dest_path) dry
                  (s\<lparr>world := w, calls := calls s @ [Makedirs (dirname dest_path)]\<rparr>) of
             (s', Inl e) \<Rightarrow> (s', Some e)
           | (s', Inr (code, out, err)) \<Rightarrow>
               if \<not> dry \<and> code \<noteq> 0
               then (s', Some (RuntimeError (''Download failed ('' @ str_int code @ '') for ''
                       @ fetch_url @ '': '' @ failure_text err out)))
               else (s', None)))"

definition upload_cmd ::
  "string \<Rightarrow> string \<Rightarrow> string \<Rightarrow> string \<Rightarrow> string \<Rightarrow> bool \<Rightarrow> string list" where
  "upload_cmd upload_url' cookie' file_field file_path is_main_field is_main =
     [''curl'', ''-sS'', ''-fL'', ''-X'', ''POST'', ''-H'', ''Cookie: '' @ cookie',
      ''-F'', file_field @ ''=@'' @ file_path,
      ''-F'', is_main_field @ ''='' @ (if is_main then ''true'' else ''false''),
      upload_url']"

definition upload_image ::
  "'w os \<Rightarrow> string \<Rightarrow> string \<Rightarrow> string \<Rightarrow> string \<Rightarrow> string \<Rightarrow> bool \<Rightarrow> bool \<Rightarrow> 'w state
     \<Rightarrow> 'w state \<times> py_exn option" where
  "upload_image os upload_url' cookie' file_field file_path is_main_field is_main dry s =
     (case run_curl os
             (upload_cmd upload_url' cookie' file_field file_path is_main_field is_main)
             dry s of
        (s', Inl e) \<Rightarrow> (s', Some e)
      | (s', Inr (code, out, err)) \<Rightarrow>
          if \<not> dry \<and> code \<noteq> 0
          then (s', Some (RuntimeError (''Upload failed ('' @ str_int code @ '') for ''
                  @ basename file_path @ '': '' @ failure_text err out)))
          else (s', None))"

definition resolve_upload_url :: "args \<Rightarrow> string \<Rightarrow> py_exn + string" where
  "resolve_upload_url a owner =
     (case given (upload_prefix a) of
        Some prefix \<Rightarrow> Inr (join_url prefix (''artworks/'' @ owner @ ''/images''))
      | None \<Rightarrow>
          (case given (upload_url a) of
             Some u \<Rightarrow>
               if contains ''{artwork_id}'' u then Inr (py_replace ''{artwork_id}'' owner u)
               else Inr u
           | None \<Rightarrow>
               Inl (RuntimeError
                 (''Unable to resolve upload URL: provide --upload-prefix or --upload-url with ''
                  @ [CHR 0x27] @ ''{artwork_id}'' @ [CHR 0x27] @ ''.''))))"

text \<open>
  The body of the loop of \<open>main\<close>. \<open>fetch_step\<close>, \<open>upload_step\<close> and \<open>cleanup_step\<close> are the
  three parts of the \<open>try\<close> block and \<open>transfer\<close> the block: it ends with the exception
  that left it, if one did. \<open>report\<close> is the line the \<open>except\<close> clause prints, and
  \<open>process_image\<close> the body for one row; the only exception that can leave it is the
  one raised by \<open>join_url\<close> before the \<open>try\<close> when there is no fetch prefix. The progress
  lines on the standard output are left out.
\<close>

definition fetch_step ::
  "'w os \<Rightarrow> args \<Rightarrow> string \<Rightarrow> string \<Rightarrow> 'w state \<Rightarrow> 'w state \<times> py_exn option" where
  "fetch_step os a fetch_url local_path s =
     (if skip_download a \<and> path_exists os (world s) local_path
      then (s\<lparr>skipped_download := skipped_download s + 1\<rparr>, None)
      else (case download_image os fetch_url local_path (dry_run a) s of
              (s', Some e) \<Rightarrow> (s', Some e)
            | (s', None) \<Rightarrow> (s'\<lparr>downloaded := downloaded s' + 1\<rparr>, None)))"

definition cookie_text :: "string option \<Rightarrow> string" where
  "cookie_text c = (case c of None \<Rightarrow> ''None'' | Some v \<Rightarrow> v)"

definition upload_step ::
  "'w os \<Rightarrow> args \<Rightarrow> image_row \<Rightarrow> string \<Rightarrow> 'w state \<Rightarrow> 'w state \<times> py_exn option" where
  "upload_step os a row local_path s =
     (case resolve_upload_url a (artwork_id row) of
        Inl e \<Rightarrow> (s, Some e)
      | Inr dest_url \<Rightarrow>
          (case upload_image os dest_url (cookie_text (cookie a)) (upload_field_file a)
                  local_path (upload_field_is_main a) (is_main_image row) (dry_run a) s of
             (s', Some e) \<Rightarrow> (s', Some e)
           | (s', None) \<Rightarrow> (s'\<lparr>uploaded := uploaded s' + 1\<rparr>, None)))"

definition cleanup_step :: "'w os \<Rightarrow> args \<Rightarrow> string \<Rightarrow> 'w state \<Rightarrow> 'w state" where
  "cleanup_step os a local_path s =
     (if cleanup a \<and> \<not> dry_run a \<and> path_exists os (world s) local_path
      then s\<lparr>world := fst (remove os (world s) local_path),
              calls := calls s @ [Remove local_path]\<rparr>
      else s)"

definition transfer ::
  "'w os \<Rightarrow> args \<Rightarrow> image_row \<Rightarrow> string \<Rightarrow> string \<Rightarrow> 'w state
     \<Rightarrow> 'w state \<times> py_exn option" where
  "transfer os a row fetch_url local_path s =
     (case fetch_step os a fetch_url local_path s of
        (s1, Some e) \<Rightarrow> (s1, Some e)
      | (s1, None) \<Rightarrow>
          (case upload_step os a row local_path s1 of
             (s2, Some e) \<Rightarrow> (s2, Some e)
           | (s2, None) \<Rightarrow> (cleanup_step os a local_path s2, None)))"

definition report :: "image_row \<Rightarrow> py_exn \<Rightarrow> string" where
  "report row exc =
     [CHR 0x0A] @ ''Error processing image id='' @ str_int (image_id row) @ '' path=''
       @ [CHR 0x27] @ image_path row @ [CHR 0x27] @ '': '' @ exn_str exc"

definition local_path_of :: "'w os \<Rightarrow> args \<Rightarrow> image_row \<Rightarrow> string" where
  "local_path_of os a row = path_join (abs_scripts_path os (save_dir a)) (image_path row)"

definition process_image ::
  "'w os \<Rightarrow> args \<Rightarrow> 'w state \<Rightarrow> image_row \<Rightarrow> py_exn + 'w state" where
  "process_image os a s row =
     (case fetch_prefix a of
        None \<Rightarrow>
          Inl (AttributeError ([CHR 0x27] @ ''NoneType'' @ [CHR 0x27]
                 @ '' object has no attribute '' @ [CHR 0x27] @ ''rstrip'' @ [CHR 0x27]))
      | Some prefix \<Rightarrow>
          (case transfer os a row (join_url prefix (image_path row)) (local_path_of os a row)
                  (s\<lparr>total := total s + 1\<rparr>) of
             (s', Some e) \<Rightarrow> Inr (s'\<lparr>errors := errors s' @ [report row e]\<rparr>)
           | (s', None) \<Rightarrow> Inr s'))"

fun transfer_loop :: "'w os \<Rightarrow> args \<Rightarrow> image_row list \<Rightarrow> 'w state \<Rightarrow> py_exn + 'w state" where
  "transfer_loop os a [] s = Inr s"
| "transfer_loop os a (row # rows) s =
     (case process_image os a s row of
        Inl e \<Rightarrow> Inl e
      | Inr s' \<Rightarrow> transfer_loop os a rows s')"

text \<open>
  \<open>main\<close>: the check of the arguments, then the loop over the rows that \<open>query_images\<close>
  yields, from the counters at zero.
\<close>

definition start :: "'w \<Rightarrow> 'w state" where
  "start w = \<lparr>world = w, calls = [], total = 0, downloaded = 0, uploaded = 0,
     skipped_download = 0, errors = []\<rparr>"

datatype exit = SystemExit string | Uncaught py_exn

definition main_images :: "'w os \<Rightarrow> args \<Rightarrow> image_row list \<Rightarrow> 'w \<Rightarrow> exit + 'w state" where
  "main_images os a rows w =
     (case ensure_prereqs a of
        Some msg \<Rightarrow> Inl (SystemExit msg)
      | None \<Rightarrow>
          (case transfer_loop os a rows (start w) of
             Inl e \<Rightarrow> Inl (Uncaught e)
           | Inr s \<Rightarrow> Inr s))"

text \<open>The call that \<open>run_curl\<close> makes for a command: printed in a dry run, run otherwise.\<close>

definition issued :: "bool \<Rightarrow> string list \<Rightarrow> call" where
  "issued dry cmd = (if dry then Echo cmd else Run cmd)"

text \<open>Two states with the same counters and the same error lines.\<close>

definition same_counts :: "'w state \<Rightarrow> 'w state \<Rightarrow> bool" where
  "same_counts s s' \<longleftrightarrow>
     total s' = total s \<and> downloaded s' = downloaded s \<and> uploaded s' = uploaded s \<and>
     skipped_download s' = skipped_download s \<and> errors s' = errors s"

text \<open>
  \<open>rebase s d\<close> is the state \<open>s\<close> after a piece of the run that, started from the
  counters at zero and no calls, ends in \<open>d\<close>: the world of \<open>d\<close>, and the calls, counts
  and error lines of \<open>d\<close> added to those of \<open>s\<close>.
\<close>

definition rebase :: "'w state \<Rightarrow> 'w state \<Rightarrow> 'w state" where
  "rebase s d = s\<lparr>world := world d, calls := calls s @ calls d,
     total := total s + total d, downloaded := downloaded s + downloaded d,
     uploaded := uploaded s + uploaded d,
     skipped_download := skipped_download s + skipped_download d,
     errors := errors s @ errors d\<rparr>"

text \<open>
  A world for the examples: the files that exist, as a list of paths. No directory
  call fails, a download ends with curl's exit code 22, an upload succeeds, and
  \<open>remove\<close> deletes the path.
\<close>

definition example_os :: "string list os" where
  "example_os = \<lparr>script_dir = ''/srv/scripts'',
     path_exists = (\<lambda>w p. p \<in> set w),
     makedirs = (\<lambda>w d. (w, None)),
     subprocess_run = (\<lambda>w cmd. if length cmd = 6 then (w, Inr (22, [], ''404 ''))
                                 else (w, Inr (0, [], []))),
     remove = (\<lambda>w p. (removeAll p w, None))\<rparr>"

definition example_args :: args where
  "example_args = \<lparr>source_dsn = Some ''dbname=old'', fetch_prefix = Some ''https://old.example.com/media/'',
     save_dir = ''images'', upload_prefix = Some ''https://api.example.com'', upload_url = None,
     cookie = Some ''access_token=t'', upload_field_file = ''image'',
     upload_field_is_main = ''is_main_image'', dry_run = False, skip_download = True,
     cleanup = False\<rparr>"

definition example_image :: "int \<Rightarrow> string \<Rightarrow> image_row" where
  "example_image n p = \<lparr>image_id = n, artwork_id = ''a1'', image_path = p, is_main_image = True\<rparr>"

section \<open>Table identifiers\<close>

lemma split_from_length:
  "length (split_from c cur s) = Suc (count_list s c)"
  by (induction s arbitrary: cur) auto

lemma split_from_none:
  "c \<notin> set s \<Longrightarrow> split_from c cur s = [cur @ s]"
  by (induction s arbitrary: cur) auto

lemma split_from_one:
  "c \<notin> set a \<Longrightarrow> split_from c cur (a @ c # b) = (cur @ a) # split_from c [] b"
  by (induction a arbitrary: cur) auto

lemma count_list_zero_iff: "count_list s c = 0 \<longleftrightarrow> c \<notin> set s"
  by (induction s) auto

lemma count_list_one_decomp:
  "count_list s c = 1 \<Longrightarrow> \<exists>a b. s = a @ c # b \<and> c \<notin> set a \<and> c \<notin> set b"
proof (induction s)
  case Nil
  then show ?case by simp
next
  case (Cons x s)
  show ?case
  proof (cases "x = c")
    case True
    with Cons.prems have "count_list s c = 0" by simp
    then have "c \<notin> set s" by (simp add: count_list_zero_iff)
    with True have "x # s = [] @ c # s \<and> c \<notin> set [] \<and> c \<notin> set s" by simp
    then show ?thesis by blast
  next
    case False
    with Cons.prems have "count_list s c = 1" by simp
    from Cons.IH [OF this] obtain a b where "s = a @ c # b" "c \<notin> set a" "c \<notin> set b"
      by blast
    with False have "x # s = (x # a) @ c # b \<and> c \<notin> set (x # a) \<and> c \<notin> set b" by auto
    then show ?thesis by blast
  qed
qed

text \<open>
  C9. A table identifier with no \<open>.\<close> parses to no schema and the identifier itself as the
  name; one with exactly one \<open>.\<close> parses to the text before it as the schema and the text
  after it as the name; and the parse raises (a \<open>ValueError\<close> naming the identifier) if and
  only if the identifier holds more than one \<open>.\<close>.
\<close>

theorem normalize_table_name_spec:
  "(count_list table (CHR ''.'') = 0 \<longrightarrow> normalize_table_name table = Inr (None, table)) \<and>
   (count_list table (CHR ''.'') = 1 \<longrightarrow>
      (\<exists>schema name. table = schema @ ''.'' @ name \<and>
         CHR ''.'' \<notin> set schema \<and> CHR ''.'' \<notin> set name \<and>
         normalize_table_name table = Inr (Some schema, name))) \<and>
   ((\<exists>e. normalize_table_name table = Inl e) \<longleftrightarrow> 1 < count_list table (CHR ''.'')) \<and>
   (1 < count_list table (CHR ''.'') \<longrightarrow>
      normalize_table_name table = Inl (ValueError (''Invalid table name: '' @ table)))"
proof -
  let ?n = "count_list table (CHR ''.'')"
  have len: "length (py_split table (CHR ''.'')) = Suc ?n"
    by (simp add: py_split_def split_from_length)
  have zero: "?n = 0 \<longrightarrow> normalize_table_name table = Inr (None, table)"
  proof
    assume "?n = 0"
    then have "CHR ''.'' \<notin> set table" by (simp add: count_list_zero_iff)
    then have "py_split table (CHR ''.'') = [table]"
      by (simp add: py_split_def split_from_none)
    then show "normalize_table_name table = Inr (None, table)"
      by (simp add: normalize_table_name_def)
  qed
  have one: "?n = 1 \<longrightarrow>
      (\<exists>schema name. table = schema @ ''.'' @ name \<and>
         CHR ''.'' \<notin> set schema \<and> CHR ''.'' \<notin> set name \<and>
         normalize_table_name table = Inr (Some schema, name))"
  proof
    assume "?n = 1"
    from count_list_one_decomp [OF this] obtain a b
      where ab: "table = a @ CHR ''.'' # b" "CHR ''.'' \<notin> set a" "CHR ''.'' \<notin> set b"
      by blast
    then have "py_split table (CHR ''.'') = [a, b]"
      by (simp add: py_split_def split_from_one split_from_none)
    then have "normalize_table_name table = Inr (Some a, b)"
      by (simp add: normalize_table_name_def)
    with ab show "\<exists>schema name. table = schema @ ''.'' @ name \<and>
         CHR ''.'' \<notin> set schema \<and> CHR ''.'' \<notin> set name \<and>
         normalize_table_name table = Inr (Some schema, name)"
      by auto
  qed
  have err: "(\<exists>e. normalize_table_name table = Inl e) \<longleftrightarrow> 1 < ?n"
    using len by (auto simp: normalize_table_name_def Let_def)
  have msg: "1 < ?n \<longrightarrow>
      normalize_table_name table = Inl (ValueError (''Invalid table name: '' @ table))"
    using len by (auto simp: normalize_table_name_def Let_def)
  from zero one err msg show ?thesis by blast
qed

theorem normalize_table_name_spec_witness:
  "normalize_table_name ''artwork_artwork'' = Inr (None, ''artwork_artwork'') \<and>
   normalize_table_name ''public.artwork'' = Inr (Some ''public'', ''artwork'') \<and>
   (\<exists>schema name. ''public.artwork'' = schema @ ''.'' @ name \<and>
      normalize_table_name ''public.artwork'' = Inr (Some schema, name)) \<and>
   normalize_table_name ''a.b.c'' = Inl (ValueError ''Invalid table name: a.b.c'')"
proof -
  have z: "count_list ''artwork_artwork'' (CHR ''.'') = 0" by simp
  have o: "count_list ''public.artwork'' (CHR ''.'') = 1" by simp
  have m: "1 < count_list ''a.b.c'' (CHR ''.'')" by simp
  from normalize_table_name_spec [of "''artwork_artwork''"] z
  have a: "normalize_table_name ''artwork_artwork'' = Inr (None, ''artwork_artwork'')"
    by blast
  from normalize_table_name_spec [of "''a.b.c''"] m
  have c: "normalize_table_name ''a.b.c'' = Inl (ValueError ''Invalid table name: a.b.c'')"
    by simp
  have b: "normalize_table_name ''public.artwork'' = Inr (Some ''public'', ''artwork'')"
    by (simp add: normalize_table_name_def py_split_def)
  from normalize_table_name_spec [of "''public.artwork''"] o
  have b': "\<exists>schema name. ''public.artwork'' = schema @ ''.'' @ name \<and>
      normalize_table_name ''public.artwork'' = Inr (Some schema, name)"
    by blast
  from a b b' c show ?thesis by blast
qed

section \<open>URL joining\<close>

lemma lstrip_decomp:
  "\<exists>k. s = replicate k c @ dropWhile (\<lambda>x. x = c) s"
proof (induction s)
  case Nil
  then show ?case by simp
next
  case (Cons x s)
  show ?case
  proof (cases "x = c")
    case True
    from Cons.IH obtain k where "s = replicate k c @ dropWhile (\<lambda>x. x = c) s" by blast
    with True have "x # s = replicate (Suc k) c @ dropWhile (\<lambda>x. x = c) (x # s)" by simp
    then show ?thesis by blast
  next
    case False
    then have "x # s = replicate 0 c @ dropWhile (\<lambda>x. x = c) (x # s)" by simp
    then show ?thesis by blast
  qed
qed

lemma lstrip_no_lead: "dropWhile (\<lambda>x. x = c) s \<noteq> c # b"
  by (induction s) auto

text \<open>
  C10. \<open>join_url\<close> returns the prefix without its trailing slashes (what is removed is a run
  of slashes, and what is left does not end in a slash), one slash, and the path without
  its leading slashes (what is removed is a run of slashes, and what is left does not
  start with a slash). So a further trailing slash on the prefix or a further leading
  slash on the path does not change the result.
\<close>

theorem join_url_slashes:
  "join_url prefix path = rstrip_chars ''/'' prefix @ ''/'' @ lstrip_chars ''/'' path \<and>
   (\<exists>j. prefix = rstrip_chars ''/'' prefix @ replicate j (CHR ''/'')) \<and>
   (\<nexists>a. rstrip_chars ''/'' prefix = a @ ''/'') \<and>
   (\<exists>k. path = replicate k (CHR ''/'') @ lstrip_chars ''/'' path) \<and>
   (\<nexists>b. lstrip_chars ''/'' path = ''/'' @ b) \<and>
   join_url (prefix @ ''/'') path = join_url prefix path \<and>
   join_url prefix (''/'' @ path) = join_url prefix path"
proof -
  let ?P = "\<lambda>x. x = CHR ''/''"
  have l: "lstrip_chars ''/'' s = dropWhile ?P s" for s
    by (simp add: lstrip_chars_def)
  have r: "rstrip_chars ''/'' s = rev (dropWhile ?P (rev s))" for s
    by (simp add: rstrip_chars_def)
  from lstrip_decomp [of "rev prefix" "CHR ''/''"] obtain j
    where "rev prefix = replicate j (CHR ''/'') @ dropWhile ?P (rev prefix)" by blast
  then have "rev (rev prefix) = rev (replicate j (CHR ''/'') @ dropWhile ?P (rev prefix))"
    by simp
  then have "prefix = rstrip_chars ''/'' prefix @ replicate j (CHR ''/'')"
    by (simp add: r)
  then have c2: "\<exists>j. prefix = rstrip_chars ''/'' prefix @ replicate j (CHR ''/'')" by blast
  have c3: "\<nexists>a. rstrip_chars ''/'' prefix = a @ ''/''"
  proof
    assume "\<exists>a. rstrip_chars ''/'' prefix = a @ ''/''"
    then obtain a where "rev (dropWhile ?P (rev prefix)) = a @ ''/''" by (auto simp: r)
    then have "rev (rev (dropWhile ?P (rev prefix))) = rev (a @ ''/'')" by simp
    then have "dropWhile ?P (rev prefix) = CHR ''/'' # rev a" by simp
    then show False
      using lstrip_no_lead [of "CHR ''/''" "rev prefix" "rev a"] by simp
  qed
  from lstrip_decomp [of path "CHR ''/''"]
  have c4: "\<exists>k. path = replicate k (CHR ''/'') @ lstrip_chars ''/'' path" by (simp add: l)
  have c5: "\<nexists>b. lstrip_chars ''/'' path = ''/'' @ b"
    using lstrip_no_lead [of "CHR ''/''" path] by (simp add: l)
  have c6: "join_url (prefix @ ''/'') path = join_url prefix path"
    by (simp add: join_url_def r)
  have c7: "join_url prefix (''/'' @ path) = join_url prefix path"
    by (simp add: join_url_def l)
  have c1: "join_url prefix path = rstrip_chars ''/'' prefix @ ''/'' @ lstrip_chars ''/'' path"
    by (simp add: join_url_def)
  from c1 c2 c3 c4 c5 c6 c7 show ?thesis by blast
qed

section \<open>Column mapping\<close>

lemma dict_set_items: "set (dict_set d k v) \<subseteq> insert (k, v) (set d)"
  by (induction d k v rule: dict_set.induct) auto

lemma dict_set_lookup: "map_of (dict_set d k v) k = Some v"
  by (induction d k v rule: dict_set.induct) auto

lemma explicit_loop_items:
  "set (explicit_loop ex ds items m) \<subseteq> set m \<union> {(s, d). (s, d) \<in> set items \<and> s \<notin> ex \<and> d \<in> ds}"
proof (induction ex ds items m rule: explicit_loop.induct)
  case (1 ex ds m)
  then show ?case by simp
next
  case (2 ex ds src dst items m)
  show ?case
  proof (cases "src \<in> ex")
    case True
    with 2 show ?thesis by auto
  next
    case False
    show ?thesis
    proof (cases "dst \<in> ds")
      case True
      with False 2 have "set (explicit_loop ex ds items (dict_set m src dst))
          \<subseteq> set (dict_set m src dst) \<union> {(s, d). (s, d) \<in> set items \<and> s \<notin> ex \<and> d \<in> ds}"
        by simp
      with dict_set_items [of m src dst] True False show ?thesis by auto
    next
      case f: False
      with False 2 show ?thesis by auto
    qed
  qed
qed

lemma same_name_loop_items:
  "set (same_name_loop ex ds cols m) \<subseteq> set m \<union> {(s, s) | s. s \<in> set cols \<and> s \<notin> ex \<and> s \<in> ds}"
proof (induction ex ds cols m rule: same_name_loop.induct)
  case (1 ex ds m)
  then show ?case by simp
next
  case (2 ex ds src cols m)
  show ?case
  proof (cases "src \<notin> set (dict_keys m) \<and> src \<notin> ex \<and> src \<in> ds")
    case True
    with 2 have "set (same_name_loop ex ds cols (dict_set m src src))
          \<subseteq> set (dict_set m src src) \<union> {(s, s) | s. s \<in> set cols \<and> s \<notin> ex \<and> s \<in> ds}"
      by simp
    with dict_set_items [of m src src] True show ?thesis by auto
  next
    case False
    with 2 show ?thesis by auto
  qed
qed

lemma build_mapping_items:
  "set (build_mapping src dst em ex) \<subseteq>
     {(s, d). (s, d) \<in> set em \<and> s \<notin> exclude_set_of ex \<and> d \<in> set dst} \<union>
     {(s, s) | s. s \<in> set src \<and> s \<notin> exclude_set_of ex \<and> s \<in> set dst}"
  using explicit_loop_items [of "exclude_set_of ex" "set dst" em "[]"]
        same_name_loop_items [of "exclude_set_of ex" "set dst" src "explicit_loop (exclude_set_of ex) (set dst) em []"]
  by (auto simp: build_mapping_def Let_def)

lemma main_mapping_items:
  "set (main_mapping idc src dst em ex) \<subseteq>
     {(s, d). (s, d) \<in> set em \<and> s \<notin> exclude_set_of ex \<and> d \<in> set dst} \<union>
     {(s, s) | s. s \<in> set src \<and> s \<notin> exclude_set_of ex \<and> s \<in> set dst} \<union>
     {(s, s) | s. s = idc \<and> s \<in> set src \<and> s \<in> set dst}"
  using build_mapping_items [of src dst em ex] dict_set_items [of "build_mapping src dst em ex" idc idc]
  by (auto simp: main_mapping_def Let_def split: if_splits)

text \<open>
  C3, as the code has it. In the mapping \<open>main\<close> works with (\<open>build_mapping\<close> and the
  added id column), every value is a destination column; every key is a source column
  or a key of the explicit map (the keys of the explicit map are not checked against the
  source columns); and no key other than the id column is in the exclude set, that is
  the excludes stripped of surrounding whitespace, empty ones dropped (the id column is
  added whether excluded or not).
\<close>

theorem main_mapping_invariant:
  "snd ` set (main_mapping idc src dst em ex) \<subseteq> set dst \<and>
   set (dict_keys (main_mapping idc src dst em ex)) \<subseteq> set src \<union> set (dict_keys em) \<and>
   set (dict_keys (main_mapping idc src dst em ex)) \<inter> exclude_set_of ex \<subseteq> {idc}"
  using main_mapping_items [of idc src dst em ex]
  by (auto simp: dict_keys_def)

text \<open>
  The claim as the specification words it fails: with the explicit map
  \<open>legacy \<mapsto> id\<close> and the id column excluded, the key \<open>legacy\<close> is no source column and
  the key \<open>id\<close> is excluded.
\<close>

theorem main_mapping_keys_counterexample:
  "main_mapping ''id'' [''id''] [''id''] [(''legacy'', ''id'')] [''id''] =
     [(''legacy'', ''id''), (''id'', ''id'')] \<and>
   ''legacy'' \<notin> set [''id''] \<and>
   ''id'' \<in> exclude_set_of [''id'']"
  by (simp add: main_mapping_def build_mapping_def exclude_set_of_def py_strip_def
      py_isspace_def dict_keys_def)

text \<open>
  C4, as the code has it. When the id column is in both column lists, it is a key of the
  final mapping. Its value is the id column itself, unless the explicit map holds an
  entry for the id column (the id column not excluded, the entry's value a destination
  column): then the value can be that entry's.
\<close>

theorem main_mapping_keeps_id:
  assumes "idc \<in> set src" and "idc \<in> set dst"
  shows "\<exists>v. map_of (main_mapping idc src dst em ex) idc = Some v \<and>
           (v = idc \<or> ((idc, v) \<in> set em \<and> idc \<notin> exclude_set_of ex \<and> v \<in> set dst))"
proof (cases "idc \<in> set (dict_keys (build_mapping src dst em ex))")
  case False
  with assms have "main_mapping idc src dst em ex = dict_set (build_mapping src dst em ex) idc idc"
    by (simp add: main_mapping_def)
  then show ?thesis by (simp add: dict_set_lookup)
next
  case True
  then have same: "main_mapping idc src dst em ex = build_mapping src dst em ex"
    by (simp add: main_mapping_def)
  from True have "map_of (build_mapping src dst em ex) idc \<noteq> None"
    by (simp add: dict_keys_def map_of_eq_None_iff)
  then obtain v where v: "map_of (build_mapping src dst em ex) idc = Some v" by blast
  then have "(idc, v) \<in> set (build_mapping src dst em ex)" by (rule map_of_SomeD)
  with build_mapping_items [of src dst em ex]
  have "v = idc \<or> ((idc, v) \<in> set em \<and> idc \<notin> exclude_set_of ex \<and> v \<in> set dst)"
    by auto
  with v same show ?thesis by simp
qed

theorem main_mapping_keeps_id_witness:
  "''id'' \<in> set [''id'', ''title''] \<and> ''id'' \<in> set [''title'', ''id''] \<and>
   (\<exists>v. map_of (main_mapping ''id'' [''id'', ''title''] [''title'', ''id''] [] [''id'']) ''id''
          = Some v \<and>
        (v = ''id'' \<or> ((''id'', v) \<in> set [] \<and> ''id'' \<notin> exclude_set_of [''id'']
           \<and> v \<in> set [''title'', ''id''])))"
proof -
  have s: "''id'' \<in> set [''id'', ''title'']" and d: "''id'' \<in> set [''title'', ''id'']"
    by simp_all
  from main_mapping_keeps_id [OF s d, of "[]" "[''id'']"] s d show ?thesis by blast
qed

text \<open>
  The claim as the specification words it fails: an explicit entry for the id column
  wins, and the id column is mapped to another column.
\<close>

theorem main_mapping_id_counterexample:
  "main_mapping ''id'' [''id''] [''id'', ''uuid''] [(''id'', ''uuid'')] [] =
     [(''id'', ''uuid'')] \<and>
   ''id'' \<in> set [''id''] \<and> ''id'' \<in> set [''id'', ''uuid''] \<and>
   map_of (main_mapping ''id'' [''id''] [''id'', ''uuid''] [(''id'', ''uuid'')] []) ''id''
     \<noteq> Some ''id''"
  by (simp add: main_mapping_def build_mapping_def exclude_set_of_def dict_keys_def)

section \<open>Batching\<close>

lemma chunked_loop_concat:
  "concat (chunked_loop xs n acc) = acc @ xs"
  by (induction xs n acc rule: chunked_loop.induct) auto

lemma chunked_loop_sizes:
  "1 \<le> n \<Longrightarrow> int (length acc) < n \<Longrightarrow> b \<in> set (chunked_loop xs n acc) \<Longrightarrow> 0 < length b \<and> int (length b) \<le> n"
  by (induction xs n acc rule: chunked_loop.induct) (auto split: if_splits)

lemma chunked_loop_full:
  "1 \<le> n \<Longrightarrow> int (length acc) < n \<Longrightarrow> b \<in> set (butlast (chunked_loop xs n acc)) \<Longrightarrow> int (length b) = n"
  by (induction xs n acc rule: chunked_loop.induct) (auto split: if_splits)

lemma select_loop_concat: "concat (select_loop cur n) = cur"
proof (induction cur n rule: select_loop.induct)
  case (1 cur n)
  show ?case
  proof (cases "fst (fetchmany cur n) = []")
    case True
    then have "cur = []" by (auto simp: fetchmany_def fetch_size_def split: if_splits)
    then show ?thesis by (simp add: fetchmany_def)
  next
    case False
    then have "select_loop cur n = fst (fetchmany cur n) # select_loop (snd (fetchmany cur n)) n"
      by (subst select_loop.simps) simp
    with "1.IH" False have "concat (select_loop cur n) = fst (fetchmany cur n) @ snd (fetchmany cur n)"
      by simp
    then show ?thesis by (simp add: fetchmany_def)
  qed
qed

lemma select_loop_sizes:
  "1 \<le> n \<Longrightarrow> b \<in> set (select_loop cur n) \<Longrightarrow> 0 < length b \<and> length b \<le> n"
proof (induction cur n rule: select_loop.induct)
  case (1 cur n)
  show ?case
  proof (cases "fst (fetchmany cur n) = []")
    case True
    with "1.prems" show ?thesis by simp
  next
    case False
    with "1.prems" have "b = fst (fetchmany cur n) \<or> b \<in> set (select_loop (snd (fetchmany cur n)) n)"
      by (subst (asm) select_loop.simps) auto
    then show ?thesis
    proof
      assume "b = fst (fetchmany cur n)"
      with False "1.prems" show ?thesis by (auto simp: fetchmany_def fetch_size_def)
    next
      assume "b \<in> set (select_loop (snd (fetchmany cur n)) n)"
      with "1.IH" False "1.prems" show ?thesis by blast
    qed
  qed
qed

lemma select_loop_full:
  "1 \<le> n \<Longrightarrow> b \<in> set (butlast (select_loop cur n)) \<Longrightarrow> length b = n"
proof (induction cur n rule: select_loop.induct)
  case (1 cur n)
  show ?case
  proof (cases "fst (fetchmany cur n) = []")
    case True
    with "1.prems" show ?thesis by simp
  next
    case False
    let ?rest = "select_loop (snd (fetchmany cur n)) n"
    from False have eq: "select_loop cur n = fst (fetchmany cur n) # ?rest"
      by (subst select_loop.simps) simp
    show ?thesis
    proof (cases "?rest = []")
      case True
      with eq "1.prems" show ?thesis by simp
    next
      case nonempty: False
      with eq "1.prems" have "b = fst (fetchmany cur n) \<or> b \<in> set (butlast ?rest)"
        by auto
      then show ?thesis
      proof
        assume b: "b = fst (fetchmany cur n)"
        from nonempty have "snd (fetchmany cur n) \<noteq> []"
          by (subst (asm) select_loop.simps) (auto simp: fetchmany_def split: if_splits)
        with b "1.prems" show ?thesis by (auto simp: fetchmany_def fetch_size_def)
      next
        assume "b \<in> set (butlast ?rest)"
        with "1.IH" False "1.prems" show ?thesis by blast
      qed
    qed
  qed
qed

lemma batches_length:
  assumes "\<And>b. b \<in> set (butlast bs) \<Longrightarrow> length b = n" and "bs \<noteq> []"
  shows "length (concat bs) = n * (length bs - 1) + length (last bs)"
  using assms
proof (induction bs)
  case Nil
  then show ?case by simp
next
  case (Cons b bs)
  show ?case
  proof (cases "bs = []")
    case True
    then show ?thesis by simp
  next
    case False
    with Cons.prems have "length b = n" by simp
    moreover from Cons.prems False have "\<And>c. c \<in> set (butlast bs) \<Longrightarrow> length c = n" by simp
    with Cons.IH False have "length (concat bs) = n * (length bs - 1) + length (last bs)" by blast
    ultimately show ?thesis using False by (cases bs) (auto simp: algebra_simps)
  qed
qed

lemma batches_count:
  assumes "0 < n" and "\<And>b. b \<in> set (butlast bs) \<Longrightarrow> length b = n"
    and "\<And>b. b \<in> set bs \<Longrightarrow> 0 < length b \<and> length b \<le> n"
  shows "int (length bs) = \<lceil>real (length (concat bs)) / real n\<rceil>"
proof (cases "bs = []")
  case True
  then show ?thesis by simp
next
  case False
  let ?k = "length bs" and ?l = "length (last bs)"
  from False assms(3) [of "last bs"] have l: "0 < ?l" "?l \<le> n" by auto
  from batches_length [OF assms(2) False]
  have m: "length (concat bs) = n * (?k - 1) + ?l" by simp
  from False have k: "0 < ?k" by simp
  have "real (n * (?k - 1) + ?l) / real n = real (?k - 1) + real ?l / real n"
    using assms(1) by (simp add: field_simps)
  moreover from False have "real (?k - 1) = real ?k - 1" by (cases bs) auto
  ultimately have q: "real (length (concat bs)) / real n = real ?k - 1 + real ?l / real n"
    using m by simp
  have "0 < real ?l / real n" "real ?l / real n \<le> 1" using l assms(1) by auto
  with q have "of_int (int ?k) - 1 < real (length (concat bs)) / real n"
     and "real (length (concat bs)) / real n \<le> of_int (int ?k)"
    by simp_all
  then have "\<lceil>real (length (concat bs)) / real n\<rceil> = int ?k" by (rule ceiling_unique)
  then show ?thesis by simp
qed

text \<open>
  C5. For a batch size \<open>n \<ge> 1\<close> and any rows, \<open>chunked\<close> and \<open>select_source_rows\<close> both
  yield \<open>\<lceil>length rows / n\<rceil>\<close> batches, none longer than \<open>n\<close>, all but the last of length
  \<open>n\<close>, whose concatenation in order is the rows.
\<close>

theorem batching_spec:
  assumes "1 \<le> n"
  shows "batches_of n rows (chunked rows (int n)) \<and>
         batches_of n rows (select_source_rows rows n)"
proof -
  let ?c = "chunked rows (int n)" and ?s = "select_source_rows rows n"
  from assms have pos: "0 < n" by simp
  from assms have one: "1 \<le> int n" by simp
  from assms have emp: "int (length ([] :: 'a list)) < int n" by simp
  have cc: "concat ?c = rows"
    unfolding chunked_def by (rule trans [OF chunked_loop_concat]) simp
  have cs: "0 < length b \<and> length b \<le> n" if "b \<in> set ?c" for b
  proof -
    from that have "b \<in> set (chunked_loop rows (int n) [])" unfolding chunked_def .
    from chunked_loop_sizes [OF one emp this] show ?thesis by simp
  qed
  have cf: "length b = n" if "b \<in> set (butlast ?c)" for b
  proof -
    from that have "b \<in> set (butlast (chunked_loop rows (int n) []))" unfolding chunked_def .
    from chunked_loop_full [OF one emp this] show ?thesis by simp
  qed
  have "int (length ?c) = \<lceil>real (length (concat ?c)) / real n\<rceil>"
    using pos cf cs by (rule batches_count)
  then have cn: "int (length ?c) = \<lceil>real (length rows) / real n\<rceil>"
    unfolding cc .
  have c: "batches_of n rows ?c"
    unfolding batches_of_def
  proof (intro conjI ballI)
    show "int (length ?c) = \<lceil>real (length rows) / real n\<rceil>" by (rule cn)
    show "length b \<le> n" if "b \<in> set ?c" for b using cs [OF that] by blast
    show "length b = n" if "b \<in> set (butlast ?c)" for b using cf [OF that] .
    show "concat ?c = rows" by (rule cc)
  qed
  have sc: "concat ?s = rows"
    unfolding select_source_rows_def by (rule select_loop_concat)
  have ss: "0 < length b \<and> length b \<le> n" if "b \<in> set ?s" for b
  proof -
    from that have "b \<in> set (select_loop rows n)" unfolding select_source_rows_def .
    from select_loop_sizes [OF assms this] show ?thesis .
  qed
  have sf: "length b = n" if "b \<in> set (butlast ?s)" for b
  proof -
    from that have "b \<in> set (butlast (select_loop rows n))"
      unfolding select_source_rows_def .
    from select_loop_full [OF assms this] show ?thesis .
  qed
  have "int (length ?s) = \<lceil>real (length (concat ?s)) / real n\<rceil>"
    using pos sf ss by (rule batches_count)
  then have sn: "int (length ?s) = \<lceil>real (length rows) / real n\<rceil>"
    unfolding sc .
  have s: "batches_of n rows ?s"
    unfolding batches_of_def
  proof (intro conjI ballI)
    show "int (length ?s) = \<lceil>real (length rows) / real n\<rceil>" by (rule sn)
    show "length b \<le> n" if "b \<in> set ?s" for b using ss [OF that] by blast
    show "length b = n" if "b \<in> set (butlast ?s)" for b using sf [OF that] .
    show "concat ?s = rows" by (rule sc)
  qed
  from c s show ?thesis by (rule conjI)
qed

theorem batching_spec_witness:
  "(1::nat) \<le> 2 \<and>
   chunked ''abcde'' 2 = [''ab'', ''cd'', ''e''] \<and>
   select_source_rows ''abcde'' 2 = [''ab'', ''cd'', ''e''] \<and>
   batches_of 2 ''abcde'' (chunked ''abcde'' (int 2)) \<and>
   batches_of 2 ''abcde'' (select_source_rows ''abcde'' 2)"
proof -
  have h: "(1::nat) \<le> 2" by simp
  have c: "chunked ''abcde'' 2 = [''ab'', ''cd'', ''e'']" by (simp add: chunked_def)
  have s: "select_source_rows ''abcde'' 2 = [''ab'', ''cd'', ''e'']"
    by (simp add: select_source_rows_def fetchmany_def fetch_size_def)
  from batching_spec [OF h, of "''abcde''"] h c s show ?thesis by simp
qed

section \<open>Upserting batches\<close>

lemma insert_row_NoClause:
  assumes "insert_row t cols NoClause vals = Inr t'"
  shows "tkey t' = tkey t \<and> tcolumns t' = tcolumns t \<and>
         trows t' = trows t @ [new_row t cols vals]"
proof -
  let ?r = "new_row t cols vals"
  from assms have a: "PNone \<notin> set (key_of t ?r)"
    by (simp add: insert_row_def Let_def split: if_splits)
  with assms have b: "\<not> conflicts t ?r"
    by (simp add: insert_row_def Let_def split: if_splits)
  with a assms have "t' = t\<lparr>trows := trows t @ [?r]\<rparr>"
    by (simp add: insert_row_def Let_def)
  then show ?thesis by simp
qed

lemma conflicts_mono:
  assumes "conflicts t r" and "tkey t' = tkey t" and "set (trows t) \<subseteq> set (trows t')"
  shows "conflicts t' r"
proof -
  from assms(1) have k: "tkey t \<noteq> []" and m: "key_of t r \<in> key_of t ` set (trows t)"
    by (simp_all add: conflicts_def)
  from assms(2) have same: "key_of t' = key_of t" by (simp add: key_of_def fun_eq_iff)
  from m assms(3) have "key_of t r \<in> key_of t ` set (trows t')" by blast
  with k same assms(2) show ?thesis by (simp add: conflicts_def)
qed

lemma new_row_cong: "tcolumns t' = tcolumns t \<Longrightarrow> new_row t' cols vals = new_row t cols vals"
  by (simp add: new_row_def)

lemma insert_row_conflict:
  assumes "conflicts t (new_row t cols vals)"
  shows "\<exists>e. insert_row t cols NoClause vals = Inl e"
  using assms by (simp add: insert_row_def Let_def)

lemma insert_all_conflict:
  assumes "w \<in> set vs" and "conflicts t (new_row t cols w)"
  shows "\<exists>t' e. insert_all t cols NoClause vs = (t', Some e)"
  using assms
proof (induction vs arbitrary: t)
  case Nil
  then show ?case by simp
next
  case (Cons v vs)
  show ?case
  proof (cases "insert_row t cols NoClause v")
    case (Inl e)
    then show ?thesis by simp
  next
    case (Inr t')
    note facts = insert_row_NoClause [OF Inr]
    have "w \<noteq> v"
    proof
      assume "w = v"
      with Cons.prems(2) insert_row_conflict [of t cols v] Inr show False by simp
    qed
    with Cons.prems(1) have w: "w \<in> set vs" by simp
    from facts have sub: "set (trows t) \<subseteq> set (trows t')" by (simp add: subset_insertI)
    from facts have key: "tkey t' = tkey t" by simp
    from facts have "tcolumns t' = tcolumns t" by simp
    then have "new_row t' cols w = new_row t cols w" by (rule new_row_cong)
    moreover from Cons.prems(2) key sub have "conflicts t' (new_row t cols w)"
      by (rule conflicts_mono)
    ultimately have "conflicts t' (new_row t' cols w)" by simp
    from Cons.IH [OF w this] obtain t'' e
      where "insert_all t' cols NoClause vs = (t'', Some e)" by blast
    with Inr show ?thesis by simp
  qed
qed

lemma executemany_committed:
  "committed (fst (executemany conn cols clause vals)) = committed conn"
  by (cases "insert_all (working conn) cols clause vals") (simp add: executemany_def)

lemma upsert_rows_run:
  assumes "rows \<noteq> []" and "\<not> dry"
    and "executemany conn (map snd mapping) (conflict_sql_of oc target (map snd mapping))
           (project_rows (dict_keys mapping) rows) = (c, e)"
  shows "upsert_rows conn dest_table mapping rows oc target dry =
           (c, case e of Some x \<Rightarrow> Inl x | None \<Rightarrow> Inr (length rows, 0))"
  using assms by (cases e) (simp_all add: upsert_rows_def Let_def project_rows_def)

lemma upsert_rows_skip:
  assumes "rows = [] \<or> dry"
  shows "upsert_rows conn dest_table mapping rows oc target dry = (conn, Inr (0, 0))"
  using assms by (cases "rows = []") (simp_all add: upsert_rows_def Let_def)

lemma upsert_rows_committed:
  assumes "upsert_rows conn dest_table mapping rows oc target dry = (conn', res)"
  shows "committed conn' = committed conn"
proof (cases "rows = [] \<or> dry")
  case True
  from upsert_rows_skip [OF this] assms show ?thesis by simp
next
  case False
  obtain c e where ex: "executemany conn (map snd mapping)
      (conflict_sql_of oc target (map snd mapping)) (project_rows (dict_keys mapping) rows)
      = (c, e)"
    by (cases "executemany conn (map snd mapping)
      (conflict_sql_of oc target (map snd mapping)) (project_rows (dict_keys mapping) rows)")
  from False have "rows \<noteq> []" "\<not> dry" by simp_all
  from upsert_rows_run [OF this ex] assms have "conn' = c" by simp
  moreover from executemany_committed [of conn "map snd mapping"
      "conflict_sql_of oc target (map snd mapping)" "project_rows (dict_keys mapping) rows"] ex
  have "committed c = committed conn" by simp
  ultimately show ?thesis by simp
qed

lemma upsert_rows_error_conflict:
  assumes "batch_conflicts (working conn) mapping batch"
  shows "\<exists>conn' e. upsert_rows conn dest_table mapping batch ''error'' target False = (conn', Inl e)"
proof -
  let ?t = "working conn"
  let ?cols = "map snd mapping"
  let ?vals = "project_rows (dict_keys mapping) batch"
  have clause: "conflict_sql_of ''error'' target ?cols = NoClause"
    by (simp add: conflict_sql_of_def)
  from assms obtain r where r: "r \<in> set batch" "conflicts ?t (incoming ?t mapping r)"
    by (auto simp: batch_conflicts_def list_ex_iff)
  then have ne: "batch \<noteq> []" by auto
  then have vne: "?vals \<noteq> []" by (simp add: project_rows_def)
  let ?w = "map (\<lambda>s. adapt_value (row_get r s)) (dict_keys mapping)"
  from r(1) have w: "?w \<in> set ?vals" unfolding project_rows_def set_map by (rule imageI)
  from r(2) have cw: "conflicts ?t (new_row ?t ?cols ?w)" by (simp add: incoming_def)
  have "\<exists>conn' e. executemany conn ?cols NoClause ?vals = (conn', Some e)"
  proof (cases "statement_ok ?t ?cols NoClause")
    case False
    with vne show ?thesis by (simp add: executemany_def)
  next
    case True
    from insert_all_conflict [OF w cw] obtain t' e
      where "insert_all ?t ?cols NoClause ?vals = (t', Some e)" by blast
    with True vne show ?thesis by (simp add: executemany_def)
  qed
  then obtain conn' e where ex: "executemany conn ?cols (conflict_sql_of ''error'' target ?cols)
      ?vals = (conn', Some e)" using clause by auto
  have "\<not> False" by simp
  from upsert_rows_run [OF ne this ex]
  have "upsert_rows conn dest_table mapping batch ''error'' target False = (conn', Inl e)"
    by simp
  then show ?thesis by blast
qed

lemma migrate_loop_append:
  "migrate_loop conn dt mapping (pre @ bs) oc target dry m w =
     (case migrate_loop conn dt mapping pre oc target dry m w of
        (conn', Inl e) \<Rightarrow> (conn', Inl e)
      | (conn', Inr (m', w')) \<Rightarrow> migrate_loop conn' dt mapping bs oc target dry m' w')"
proof (induction pre arbitrary: conn m w)
  case Nil
  then show ?case by simp
next
  case (Cons b pre)
  obtain conn' res where up: "upsert_rows conn dt mapping b oc target dry = (conn', res)"
    by (cases "upsert_rows conn dt mapping b oc target dry")
  show ?case
  proof (cases res)
    case (Inl e)
    with up show ?thesis by simp
  next
    case (Inr counts)
    obtain i s where "counts = (i, s)" by (cases counts)
    with up Inr show ?thesis by (simp add: Cons.IH)
  qed
qed

lemma migrate_loop_committed:
  assumes "migrate_loop conn dt mapping bs oc target False m w = (conn', Inr counts)"
    and "committed conn = working conn"
  shows "committed conn' = working conn'"
  using assms
proof (induction bs arbitrary: conn m w)
  case Nil
  then show ?case by simp
next
  case (Cons b bs)
  obtain c res where up: "upsert_rows conn dt mapping b oc target False = (c, res)"
    by (cases "upsert_rows conn dt mapping b oc target False")
  show ?case
  proof (cases res)
    case (Inl e)
    with up Cons.prems show ?thesis by simp
  next
    case (Inr cnt)
    obtain i s where cnt: "cnt = (i, s)" by (cases cnt)
    from up Inr cnt Cons.prems(1)
    have "migrate_loop (commit c) dt mapping bs oc target False (m + i) (w + length b)
            = (conn', Inr counts)" by simp
    moreover have "committed (commit c) = working (commit c)" by (simp add: commit_def)
    ultimately show ?thesis by (rule Cons.IH)
  qed
qed

lemma migrate_loop_dry:
  "migrate_loop conn dt mapping batches oc target True m w
     = (conn, Inr (m, w + sum_list (map length batches)))"
proof (induction batches arbitrary: m w)
  case Nil
  then show ?case by simp
next
  case (Cons b bs)
  have "upsert_rows conn dt mapping b oc target True = (conn, Inr (0, 0))"
    by (rule upsert_rows_skip) simp
  then show ?case by (simp add: Cons.IH)
qed

lemmas db_eval = upsert_rows_def executemany_def statement_ok_def insert_row_def
  new_row_def key_of_def conflicts_def row_get_def conflict_sql_of_def project_rows_def
  dict_keys_def target_ok_def connect_def commit_def rollback_def Let_def

text \<open>
  C1. The specification has the inserted count under the skip policy count the rows
  that were new. \<open>upsert_rows\<close> returns the length of the batch instead: here the one
  row of the batch conflicts with the stored row, the destination is left as it was
  (no row is new), and the inserted count is 1.
\<close>

theorem upsert_rows_skip_counts_batch:
  "batch_conflicts example_dest example_mapping [[(''id'', PInt 1), (''title'', PStr ''new'')]] \<and>
   upsert_rows (connect example_dest) ''artwork'' example_mapping
     [[(''id'', PInt 1), (''title'', PStr ''new'')]] ''skip'' [''id''] False
   = (connect example_dest, Inr (1, 0))"
proof
  show "batch_conflicts example_dest example_mapping
      [[(''id'', PInt 1), (''title'', PStr ''new'')]]"
    by (simp add: batch_conflicts_def incoming_def db_eval example_dest_def
        example_mapping_def)
  show "upsert_rows (connect example_dest) ''artwork'' example_mapping
     [[(''id'', PInt 1), (''title'', PStr ''new'')]] ''skip'' [''id''] False
   = (connect example_dest, Inr (1, 0))"
    by (simp add: db_eval example_dest_def example_mapping_def)
qed

text \<open>
  C2. Under the error policy, when the batches before went through and the next batch
  holds a row that conflicts with a row of the destination as they left it, the run
  ends with the database's error, and the destination is exactly as the batches
  before left it: none of the failing batch's rows is committed, and what was committed
  before stays.
\<close>

theorem error_policy_batch_atomic:
  assumes pre: "run_batches dest dest_table mapping pre ''error'' conflict_target False
                  = (conn1, Inr counts)"
    and conf: "batch_conflicts (committed conn1) mapping batch"
  shows "\<exists>e. run_batches dest dest_table mapping (pre @ batch # rest) ''error''
                conflict_target False
              = (\<lparr>committed = committed conn1, working = committed conn1\<rparr>, Inl e)"
proof -
  obtain c res where loop: "migrate_loop (connect dest) dest_table mapping pre ''error''
      conflict_target False 0 0 = (c, res)"
    by (cases "migrate_loop (connect dest) dest_table mapping pre ''error''
      conflict_target False 0 0")
  from pre loop have res: "res = Inr counts" and c1: "conn1 = commit c"
    by (auto simp: run_batches_def split: sum.splits)
  have fresh: "committed (connect dest) = working (connect dest)" by (simp add: connect_def)
  from loop res have "migrate_loop (connect dest) dest_table mapping pre ''error''
      conflict_target False 0 0 = (c, Inr counts)" by simp
  from migrate_loop_committed [OF this fresh] have cw: "committed c = working c" .
  with c1 have same: "committed conn1 = working c" "committed conn1 = committed c"
    by (simp_all add: commit_def)
  from conf same have "batch_conflicts (working c) mapping batch" by simp
  from upsert_rows_error_conflict [OF this] obtain c' e
    where up: "upsert_rows c dest_table mapping batch ''error'' conflict_target False
                 = (c', Inl e)" by blast
  from upsert_rows_committed [OF up] have cc: "committed c' = committed c" .
  obtain m w where counts: "counts = (m, w)" by (cases counts)
  have "migrate_loop (connect dest) dest_table mapping (pre @ batch # rest) ''error''
      conflict_target False 0 0 = (c', Inl e)"
    using loop res counts up by (simp add: migrate_loop_append)
  then have "run_batches dest dest_table mapping (pre @ batch # rest) ''error''
      conflict_target False = (rollback c', Inl e)"
    by (simp add: run_batches_def)
  moreover have "rollback c' = \<lparr>committed = committed conn1, working = committed conn1\<rparr>"
    using cc same by (simp add: rollback_def)
  ultimately show ?thesis by simp
qed

theorem error_policy_batch_atomic_witness:
  "run_batches example_dest ''artwork'' example_mapping
     [[[(''id'', PInt 2), (''title'', PStr ''b'')]]] ''error'' [''id''] False
   = (connect (example_dest\<lparr>trows := trows example_dest
         @ [[(''id'', PInt 2), (''title'', PStr ''b'')]]\<rparr>), Inr (1, 1)) \<and>
   batch_conflicts (example_dest\<lparr>trows := trows example_dest
         @ [[(''id'', PInt 2), (''title'', PStr ''b'')]]\<rparr>) example_mapping
     [[(''id'', PInt 3), (''title'', PStr ''c'')], [(''id'', PInt 1), (''title'', PStr ''new'')]] \<and>
   (\<exists>e. run_batches example_dest ''artwork'' example_mapping
     ([[[(''id'', PInt 2), (''title'', PStr ''b'')]]] @
      [[(''id'', PInt 3), (''title'', PStr ''c'')], [(''id'', PInt 1), (''title'', PStr ''new'')]]
      # []) ''error'' [''id''] False
    = (connect (example_dest\<lparr>trows := trows example_dest
         @ [[(''id'', PInt 2), (''title'', PStr ''b'')]]\<rparr>), Inl e))"
proof -
  let ?d1 = "example_dest\<lparr>trows := trows example_dest
         @ [[(''id'', PInt 2), (''title'', PStr ''b'')]]\<rparr>"
  have pre: "run_batches example_dest ''artwork'' example_mapping
     [[[(''id'', PInt 2), (''title'', PStr ''b'')]]] ''error'' [''id''] False
   = (connect ?d1, Inr (1, 1))"
    by (simp add: run_batches_def db_eval example_dest_def example_mapping_def)
  have c: "committed (connect ?d1) = ?d1" by (simp add: connect_def)
  have conf: "batch_conflicts (committed (connect ?d1)) example_mapping
     [[(''id'', PInt 3), (''title'', PStr ''c'')], [(''id'', PInt 1), (''title'', PStr ''new'')]]"
    unfolding c
    by (simp add: batch_conflicts_def incoming_def db_eval example_dest_def example_mapping_def)
  from error_policy_batch_atomic [OF pre conf, of "[]"]
  have "\<exists>e. run_batches example_dest ''artwork'' example_mapping
     ([[[(''id'', PInt 2), (''title'', PStr ''b'')]]] @
      [[(''id'', PInt 3), (''title'', PStr ''c'')], [(''id'', PInt 1), (''title'', PStr ''new'')]]
      # []) ''error'' [''id''] False
    = (connect ?d1, Inl e)"
    by (simp add: connect_def)
  with pre conf c show ?thesis by simp
qed

lemma upsert_rows_steps_result:
  "upsert_rows conn dest_table mapping rows on_conflict conflict_target dry =
     (case upsert_rows_steps conn dest_table mapping rows on_conflict conflict_target dry of
        (c, r, p) \<Rightarrow> (c, r))"
proof (cases "rows = [] \<or> dry")
  case True
  from upsert_rows_skip [OF this]
  have "upsert_rows conn dest_table mapping rows on_conflict conflict_target dry
      = (conn, Inr (0, 0))" .
  moreover from True
  have "(case upsert_rows_steps conn dest_table mapping rows on_conflict conflict_target dry of
        (c, r, p) \<Rightarrow> (c, r)) = (conn, Inr (0, 0))"
    by (cases "rows = []") (simp_all add: upsert_rows_steps_def Let_def)
  ultimately show ?thesis by simp
next
  case False
  then have ne: "rows \<noteq> []" and nd: "\<not> dry" by simp_all
  let ?p = "prepare dest_table mapping rows on_conflict conflict_target"
  have cols: "built_cols ?p = map snd mapping"
    and clause: "built_clause ?p = conflict_sql_of on_conflict conflict_target (map snd mapping)"
    and vals: "built_values ?p = project_rows (dict_keys mapping) rows"
    by (simp_all add: prepare_def Let_def)
  obtain c e where ex: "executemany conn (map snd mapping)
      (conflict_sql_of on_conflict conflict_target (map snd mapping))
      (project_rows (dict_keys mapping) rows) = (c, e)"
    by (cases "executemany conn (map snd mapping)
      (conflict_sql_of on_conflict conflict_target (map snd mapping))
      (project_rows (dict_keys mapping) rows)")
  note up = upsert_rows_run [OF ne nd ex]
  have len: "length (project_rows (dict_keys mapping) rows) = length rows"
    by (simp add: project_rows_def)
  from ne nd ex have "upsert_rows_steps conn dest_table mapping rows on_conflict
      conflict_target dry =
      (c, (case e of Some x \<Rightarrow> Inl x | None \<Rightarrow> Inr (length rows, 0)), Some ?p)"
    by (cases e) (simp_all add: upsert_rows_steps_def Let_def cols clause vals len)
  with up show ?thesis by simp
qed

text \<open>
  C6. In a dry run \<open>upsert_rows\<close> returns the connection as it was given, with the counts
  \<open>(0, 0)\<close>, whatever the batch, mapping, policy and conflict target; and a whole dry run
  leaves the destination as it was, counting only the rows that would migrate. For a
  non-empty batch the call has by then built the statement (its text, its columns and
  its conflict clause, by \<open>conflict_sql_of\<close>) and the tuple of every row (by
  \<open>project_rows\<close>, one tuple for each row); for an empty batch it returns before building
  anything. \<open>upsert_rows\<close> is \<open>upsert_rows_steps\<close> without the record of what was built.
\<close>

theorem dry_run_no_write:
  "upsert_rows conn dest_table mapping rows on_conflict conflict_target True
     = (conn, Inr (0, 0)) \<and>
   run_batches dest dest_table mapping batches on_conflict conflict_target True
     = (connect dest, Inr (0, sum_list (map length batches))) \<and>
   upsert_rows_steps conn dest_table mapping rows on_conflict conflict_target True
     = (conn, Inr (0, 0),
        if rows = [] then None
        else Some \<lparr>built_sql = sql_text dest_table (map snd mapping) on_conflict conflict_target,
                   built_cols = map snd mapping,
                   built_clause = conflict_sql_of on_conflict conflict_target (map snd mapping),
                   built_values = project_rows (dict_keys mapping) rows\<rparr>) \<and>
   upsert_rows conn dest_table mapping rows on_conflict conflict_target dry
     = (case upsert_rows_steps conn dest_table mapping rows on_conflict conflict_target dry of
          (c, r, p) \<Rightarrow> (c, r)) \<and>
   length (project_rows (dict_keys mapping) rows) = length rows"
proof (intro conjI)
  show "upsert_rows conn dest_table mapping rows on_conflict conflict_target True
     = (conn, Inr (0, 0))"
    by (rule upsert_rows_skip) simp
  have "commit (connect dest) = connect dest" by (simp add: commit_def connect_def)
  then show "run_batches dest dest_table mapping batches on_conflict conflict_target True
     = (connect dest, Inr (0, sum_list (map length batches)))"
    by (simp add: run_batches_def migrate_loop_dry)
  show "upsert_rows_steps conn dest_table mapping rows on_conflict conflict_target True
     = (conn, Inr (0, 0),
        if rows = [] then None
        else Some \<lparr>built_sql = sql_text dest_table (map snd mapping) on_conflict conflict_target,
                   built_cols = map snd mapping,
                   built_clause = conflict_sql_of on_conflict conflict_target (map snd mapping),
                   built_values = project_rows (dict_keys mapping) rows\<rparr>)"
    by (cases "rows = []") (simp_all add: upsert_rows_steps_def prepare_def Let_def)
  show "upsert_rows conn dest_table mapping rows on_conflict conflict_target dry
     = (case upsert_rows_steps conn dest_table mapping rows on_conflict conflict_target dry of
          (c, r, p) \<Rightarrow> (c, r))"
    by (rule upsert_rows_steps_result)
  show "length (project_rows (dict_keys mapping) rows) = length rows"
    by (simp add: project_rows_def)
qed

theorem dry_run_no_write_witness:
  "upsert_rows_steps (connect example_dest) ''artwork'' example_mapping
     [[(''id'', PInt 2), (''title'', PStr ''b'')]] ''skip'' [''id''] True
   = (connect example_dest, Inr (0, 0),
      Some \<lparr>built_sql =
               [CHR 0x0A] @ ''        insert into artwork ('' @ [CHR 0x22] @ ''id'' @ [CHR 0x22]
                 @ '', '' @ [CHR 0x22] @ ''title'' @ [CHR 0x22] @ '')''
               @ [CHR 0x0A] @ ''        values (%s, %s)''
               @ [CHR 0x0A] @ ''        on conflict (id) do nothing''
               @ [CHR 0x0A] @ ''        ''
               @ [CHR 0x0A] @ ''    '',
             built_cols = [''id'', ''title''],
             built_clause = DoNothing [''id''],
             built_values = [[PInt 2, PStr ''b'']]\<rparr>) \<and>
   upsert_rows_steps (connect example_dest) ''artwork'' example_mapping [] ''skip'' [''id''] True
   = (connect example_dest, Inr (0, 0), None)"
proof -
  have a: "upsert_rows_steps (connect example_dest) ''artwork'' example_mapping
     [[(''id'', PInt 2), (''title'', PStr ''b'')]] ''skip'' [''id''] True
   = (connect example_dest, Inr (0, 0),
      Some \<lparr>built_sql =
               [CHR 0x0A] @ ''        insert into artwork ('' @ [CHR 0x22] @ ''id'' @ [CHR 0x22]
                 @ '', '' @ [CHR 0x22] @ ''title'' @ [CHR 0x22] @ '')''
               @ [CHR 0x0A] @ ''        values (%s, %s)''
               @ [CHR 0x0A] @ ''        on conflict (id) do nothing''
               @ [CHR 0x0A] @ ''        ''
               @ [CHR 0x0A] @ ''    '',
             built_cols = [''id'', ''title''],
             built_clause = DoNothing [''id''],
             built_values = [[PInt 2, PStr ''b'']]\<rparr>)"
    using dry_run_no_write [of "connect example_dest" "''artwork''" example_mapping
        "[[(''id'', PInt 2), (''title'', PStr ''b'')]]" "''skip''" "[''id'']"]
    by (simp add: sql_text_def conflict_text_def quoted_def conflict_sql_of_def
        project_rows_def row_get_def dict_keys_def example_mapping_def)
  have b: "upsert_rows_steps (connect example_dest) ''artwork'' example_mapping [] ''skip''
      [''id''] True = (connect example_dest, Inr (0, 0), None)"
    using dry_run_no_write [of "connect example_dest" "''artwork''" example_mapping
        "[]" "''skip''" "[''id'']"]
    by simp
  from a b show ?thesis by (rule conjI)
qed

section \<open>Transferring images\<close>

subsection \<open>What one image adds does not depend on the counters\<close>

lemma rebase_start: "rebase s (start (world s)) = s"
  by (simp add: rebase_def start_def)

lemma world_rebase: "world (rebase s d) = world d"
  by (simp add: rebase_def)

lemma rebase_assoc: "rebase (rebase s d) e = rebase s (rebase d e)"
  by (simp add: rebase_def)

lemma run_curl_local:
  "run_curl os cmd dry s =
     (case run_curl os cmd dry (start (world s)) of (d, r) \<Rightarrow> (rebase s d, r))"
  by (simp add: run_curl_def rebase_def start_def split: prod.split sum.split)

lemma download_image_local:
  "download_image os url path dry s =
     (case download_image os url path dry (start (world s)) of (d, r) \<Rightarrow> (rebase s d, r))"
  by (simp add: download_image_def run_curl_def rebase_def start_def
      split: prod.split sum.split option.split)

lemma upload_image_local:
  "upload_image os url ck ff fp mf im dry s =
     (case upload_image os url ck ff fp mf im dry (start (world s)) of
        (d, r) \<Rightarrow> (rebase s d, r))"
  by (simp add: upload_image_def run_curl_def rebase_def start_def
      split: prod.split sum.split option.split)

lemma fetch_step_local:
  "fetch_step os a url path s =
     (case fetch_step os a url path (start (world s)) of (d, r) \<Rightarrow> (rebase s d, r))"
proof (cases "skip_download a \<and> path_exists os (world s) path")
  case True
  then show ?thesis by (simp add: fetch_step_def rebase_def start_def)
next
  case False
  obtain d r where d: "download_image os url path (dry_run a) (start (world s)) = (d, r)"
    by (cases "download_image os url path (dry_run a) (start (world s))")
  with download_image_local [of os url path "dry_run a" s]
  have dl: "download_image os url path (dry_run a) s = (rebase s d, r)" by simp
  have ws: "world (start (world s)) = world s" by (simp add: start_def)
  from False have unf: "fetch_step os a url path t =
      (case download_image os url path (dry_run a) t of
         (s', Some e) \<Rightarrow> (s', Some e)
       | (s', None) \<Rightarrow> (s'\<lparr>downloaded := downloaded s' + 1\<rparr>, None))"
    if "world t = world s" for t
    using that by (auto simp add: fetch_step_def)
  note u1 = unf [of s, OF refl] and u2 = unf [of "start (world s)", OF ws]
  show ?thesis
    unfolding u1 u2 dl d by (cases r) (simp_all add: rebase_def)
qed

lemma upload_step_local:
  "upload_step os a row path s =
     (case upload_step os a row path (start (world s)) of (d, r) \<Rightarrow> (rebase s d, r))"
proof (cases "resolve_upload_url a (artwork_id row)")
  case (Inl e)
  then show ?thesis by (simp add: upload_step_def rebase_def start_def)
next
  case (Inr url)
  let ?up = "upload_image os url (cookie_text (cookie a)) (upload_field_file a) path
     (upload_field_is_main a) (is_main_image row) (dry_run a)"
  obtain d r where d: "?up (start (world s)) = (d, r)" by (cases "?up (start (world s))")
  with upload_image_local [of os url "cookie_text (cookie a)" "upload_field_file a" path
      "upload_field_is_main a" "is_main_image row" "dry_run a" s]
  have "?up s = (rebase s d, r)" by simp
  with d Inr show ?thesis
    by (cases r) (simp_all add: upload_step_def start_def rebase_def)
qed

lemma cleanup_step_local:
  "cleanup_step os a path s = rebase s (cleanup_step os a path (start (world s)))"
  by (simp add: cleanup_step_def rebase_def start_def)

lemma transfer_local:
  "transfer os a row url path s =
     (case transfer os a row url path (start (world s)) of (d, r) \<Rightarrow> (rebase s d, r))"
proof -
  obtain d1 r1 where f0: "fetch_step os a url path (start (world s)) = (d1, r1)"
    by (cases "fetch_step os a url path (start (world s))")
  with fetch_step_local [of os a url path s]
  have f: "fetch_step os a url path s = (rebase s d1, r1)" by simp
  show ?thesis
  proof (cases r1)
    case (Some e)
    with f f0 show ?thesis by (simp add: transfer_def)
  next
    case None
    obtain d2 r2 where u0: "upload_step os a row path (start (world d1)) = (d2, r2)"
      by (cases "upload_step os a row path (start (world d1))")
    from upload_step_local [of os a row path d1] u0
    have u1: "upload_step os a row path d1 = (rebase d1 d2, r2)" by simp
    from upload_step_local [of os a row path "rebase s d1"] u0
    have u: "upload_step os a row path (rebase s d1) = (rebase s (rebase d1 d2), r2)"
      by (simp add: world_rebase rebase_assoc)
    show ?thesis
    proof (cases r2)
      case (Some e)
      with f f0 None u u1 show ?thesis by (simp add: transfer_def)
    next
      case n2: None
      have "cleanup_step os a path (rebase s (rebase d1 d2))
          = rebase s (cleanup_step os a path (rebase d1 d2))"
        using cleanup_step_local [of os a path "rebase s (rebase d1 d2)"]
              cleanup_step_local [of os a path "rebase d1 d2"]
        by (simp add: world_rebase rebase_assoc)
      with f f0 None u u1 n2 show ?thesis by (simp add: transfer_def)
    qed
  qed
qed

lemma process_image_local:
  "process_image os a s row =
     (case process_image os a (start (world s)) row of
        Inl e \<Rightarrow> Inl e
      | Inr d \<Rightarrow> Inr (rebase s d))"
proof (cases "fetch_prefix a")
  case None
  then show ?thesis by (simp add: process_image_def)
next
  case (Some prefix)
  let ?z = "start (world s)\<lparr>total := total (start (world s)) + 1\<rparr>"
  let ?t = "transfer os a row (join_url prefix (image_path row)) (local_path_of os a row)"
  have wz: "world ?z = world s" by (simp add: start_def)
  obtain d r where t0: "?t (start (world s)) = (d, r)" by (cases "?t (start (world s))")
  from transfer_local [of os a row _ _ ?z, unfolded wz] t0
  have tz: "?t ?z = (rebase ?z d, r)" by simp
  from transfer_local [of os a row _ _ "s\<lparr>total := total s + 1\<rparr>"] t0
  have ts: "?t (s\<lparr>total := total s + 1\<rparr>) = (rebase (s\<lparr>total := total s + 1\<rparr>) d, r)"
    by simp
  have eq: "rebase (s\<lparr>total := total s + 1\<rparr>) d = rebase s (rebase ?z d)"
    by (simp add: rebase_def start_def)
  show ?thesis
  proof (cases r)
    case None
    with Some tz ts eq show ?thesis by (simp add: process_image_def)
  next
    case e: (Some e)
    have "rebase s (rebase ?z d)\<lparr>errors := errors (rebase s (rebase ?z d)) @ [report row e]\<rparr>
        = rebase s (rebase ?z d\<lparr>errors := errors (rebase ?z d) @ [report row e]\<rparr>)"
      by (simp add: rebase_def)
    with Some tz ts eq e show ?thesis by (simp add: process_image_def)
  qed
qed

lemma transfer_loop_local:
  "transfer_loop os a rows s =
     (case transfer_loop os a rows (start (world s)) of
        Inl e \<Rightarrow> Inl e
      | Inr d \<Rightarrow> Inr (rebase s d))"
proof (induction rows arbitrary: s)
  case Nil
  then show ?case by (simp add: rebase_start)
next
  case (Cons row rows)
  show ?case
  proof (cases "process_image os a (start (world s)) row")
    case (Inl e)
    with process_image_local [of os a s row] show ?thesis by simp
  next
    case (Inr d)
    with process_image_local [of os a s row]
    have p: "process_image os a s row = Inr (rebase s d)" by simp
    have "transfer_loop os a rows (rebase s d)
        = (case transfer_loop os a rows (start (world d)) of
             Inl e \<Rightarrow> Inl e | Inr t \<Rightarrow> Inr (rebase (rebase s d) t))"
      using Cons.IH [of "rebase s d"] by (simp add: world_rebase)
    moreover have "transfer_loop os a rows d
        = (case transfer_loop os a rows (start (world d)) of
             Inl e \<Rightarrow> Inl e | Inr t \<Rightarrow> Inr (rebase d t))"
      by (rule Cons.IH)
    ultimately have "transfer_loop os a rows (rebase s d)
        = (case transfer_loop os a rows d of
             Inl e \<Rightarrow> Inl e | Inr t \<Rightarrow> Inr (rebase s t))"
      by (cases "transfer_loop os a rows (start (world d))") (simp_all add: rebase_assoc)
    with p Inr show ?thesis by simp
  qed
qed

subsection \<open>What each step does to the calls and the counters\<close>

lemma given_Some: "given x \<noteq> None \<Longrightarrow> \<exists>v. x = Some v \<and> given x = Some v"
  by (cases x) (auto simp: given_def split: if_splits)

lemma prereqs_fetch_prefix:
  assumes "ensure_prereqs a = None"
  shows "\<exists>prefix. fetch_prefix a = Some prefix"
proof -
  from assms have "given (fetch_prefix a) \<noteq> None"
    by (auto simp: ensure_prereqs_def split: if_splits)
  from given_Some [OF this] show ?thesis by blast
qed

lemma prereqs_resolve:
  assumes "ensure_prereqs a = None"
  shows "\<exists>url. resolve_upload_url a owner = Inr url"
proof (cases "given (upload_prefix a)")
  case (Some p)
  then show ?thesis by (simp add: resolve_upload_url_def)
next
  case None
  with assms obtain u where "given (upload_url a) = Some u"
    by (auto simp: ensure_prereqs_def split: if_splits option.splits)
  with None show ?thesis by (simp add: resolve_upload_url_def)
qed

lemma run_curl_effect:
  assumes "run_curl os cmd dry s = (s', r)"
  shows "calls s' = calls s @ [issued dry cmd] \<and> same_counts s s'"
  using assms
  by (auto simp: run_curl_def issued_def same_counts_def split: if_splits prod.splits sum.splits)

lemma upload_image_effect:
  assumes "upload_image os url ck ff fp mf im dry s = (s', r)"
  shows "calls s' = calls s @ [issued dry (upload_cmd url ck ff fp mf im)] \<and> same_counts s s'"
proof -
  obtain t q where rc: "run_curl os (upload_cmd url ck ff fp mf im) dry s = (t, q)"
    by (cases "run_curl os (upload_cmd url ck ff fp mf im) dry s")
  with assms have "s' = t"
    by (auto simp: upload_image_def split: sum.splits prod.splits if_splits)
  with run_curl_effect [OF rc] show ?thesis by simp
qed

lemma cleanup_step_effect:
  "\<exists>tail. calls (cleanup_step os a p s) = calls s @ tail \<and> set tail \<subseteq> {Remove p}
     \<and> same_counts s (cleanup_step os a p s)"
proof (cases "cleanup a \<and> \<not> dry_run a \<and> path_exists os (world s) p")
  case True
  then have "calls (cleanup_step os a p s) = calls s @ [Remove p]
     \<and> set [Remove p] \<subseteq> {Remove p} \<and> same_counts s (cleanup_step os a p s)"
    by (simp add: cleanup_step_def same_counts_def)
  then show ?thesis by blast
next
  case False
  then have "cleanup_step os a p s = s" by (auto simp add: cleanup_step_def)
  then have "calls (cleanup_step os a p s) = calls s @ []
     \<and> set ([] :: call list) \<subseteq> {Remove p} \<and> same_counts s (cleanup_step os a p s)"
    by (simp add: same_counts_def)
  then show ?thesis by blast
qed

lemma upload_not_download:
  "upload_cmd url ck ff fp mf im \<noteq> download_cmd u p"
  "download_cmd u p \<noteq> upload_cmd url ck ff fp mf im"
  by (simp_all add: upload_cmd_def download_cmd_def)

lemma download_image_effect:
  assumes "download_image os url path dry s = (s', r)"
  shows "same_counts s s'"
proof -
  obtain w m where mk: "makedirs os (world s) (dirname path) = (w, m)"
    by (cases "makedirs os (world s) (dirname path)")
  show ?thesis
  proof (cases m)
    case (Some msg)
    with mk assms show ?thesis by (auto simp: download_image_def same_counts_def)
  next
    case None
    let ?s1 = "s\<lparr>world := w, calls := calls s @ [Makedirs (dirname path)]\<rparr>"
    obtain t q where rc: "run_curl os (download_cmd url path) dry ?s1 = (t, q)"
      by (cases "run_curl os (download_cmd url path) dry ?s1")
    with mk None assms have "s' = t"
      by (auto simp: download_image_def split: sum.splits prod.splits if_splits)
    with run_curl_effect [OF rc] show ?thesis by (simp add: same_counts_def)
  qed
qed

lemma fetch_step_effect:
  assumes "fetch_step os a url path s = (s', r)"
  shows "total s' = total s \<and> errors s' = errors s \<and> uploaded s' = uploaded s"
proof (cases "skip_download a \<and> path_exists os (world s) path")
  case True
  with assms show ?thesis by (auto simp: fetch_step_def)
next
  case False
  obtain t q where d: "download_image os url path (dry_run a) s = (t, q)"
    by (cases "download_image os url path (dry_run a) s")
  from download_image_effect [OF d] have "same_counts s t" .
  moreover from False d assms have "s' = t \<or> s' = t\<lparr>downloaded := downloaded t + 1\<rparr>"
    by (cases q) (auto simp: fetch_step_def)
  ultimately show ?thesis by (auto simp: same_counts_def)
qed

lemma upload_step_effect:
  assumes "upload_step os a row path s = (s', r)"
  shows "total s' = total s \<and> errors s' = errors s \<and> (r \<noteq> None \<longrightarrow> uploaded s' = uploaded s)"
proof (cases "resolve_upload_url a (artwork_id row)")
  case (Inl e)
  with assms show ?thesis by (auto simp: upload_step_def)
next
  case (Inr url)
  obtain t q where u: "upload_image os url (cookie_text (cookie a)) (upload_field_file a) path
      (upload_field_is_main a) (is_main_image row) (dry_run a) s = (t, q)"
    by (cases "upload_image os url (cookie_text (cookie a)) (upload_field_file a) path
      (upload_field_is_main a) (is_main_image row) (dry_run a) s")
  from upload_image_effect [OF u] have same: "same_counts s t" by simp
  show ?thesis
  proof (cases q)
    case None
    with Inr u assms have "s' = t\<lparr>uploaded := uploaded t + 1\<rparr>" "r = None"
      by (auto simp: upload_step_def)
    with same show ?thesis by (simp add: same_counts_def)
  next
    case (Some e)
    with Inr u assms have "s' = t" by (auto simp: upload_step_def)
    with same show ?thesis by (simp add: same_counts_def)
  qed
qed

lemma transfer_effect:
  assumes "transfer os a row url path s = (s', r)"
  shows "total s' = total s \<and> errors s' = errors s \<and> (r \<noteq> None \<longrightarrow> uploaded s' = uploaded s)"
proof -
  obtain s1 r1 where f: "fetch_step os a url path s = (s1, r1)"
    by (cases "fetch_step os a url path s")
  note fe = fetch_step_effect [OF f]
  show ?thesis
  proof (cases r1)
    case (Some e)
    with f assms have "s' = s1" by (simp add: transfer_def)
    with fe show ?thesis by simp
  next
    case None
    obtain s2 r2 where u: "upload_step os a row path s1 = (s2, r2)"
      by (cases "upload_step os a row path s1")
    note ue = upload_step_effect [OF u]
    show ?thesis
    proof (cases r2)
      case (Some e)
      with f None u assms have "s' = s2" "r = Some e" by (simp_all add: transfer_def)
      with fe ue Some show ?thesis by simp
    next
      case n: None
      with f None u assms have "s' = cleanup_step os a path s2" "r = None"
        by (simp_all add: transfer_def)
      moreover from cleanup_step_effect [of os a path s2]
      have "same_counts s2 (cleanup_step os a path s2)" by blast
      ultimately show ?thesis using fe ue by (simp add: same_counts_def)
    qed
  qed
qed

lemma process_image_total:
  assumes "ensure_prereqs a = None"
  shows "\<exists>s' new. process_image os a s row = Inr s' \<and> total s' = total s + 1
           \<and> errors s' = errors s @ new"
proof -
  from prereqs_fetch_prefix [OF assms] obtain prefix where fp: "fetch_prefix a = Some prefix"
    by blast
  let ?t = "transfer os a row (join_url prefix (image_path row)) (local_path_of os a row)
      (s\<lparr>total := total s + 1\<rparr>)"
  obtain s1 r where t: "?t = (s1, r)" by (cases ?t)
  from transfer_effect [OF t] have te: "total s1 = total s + 1" "errors s1 = errors s"
    by simp_all
  show ?thesis
  proof (cases r)
    case None
    with fp t have "process_image os a s row = Inr s1" by (simp add: process_image_def)
    with te have "process_image os a s row = Inr s1 \<and> total s1 = total s + 1
        \<and> errors s1 = errors s @ []" by simp
    then show ?thesis by blast
  next
    case (Some e)
    let ?s' = "s1\<lparr>errors := errors s1 @ [report row e]\<rparr>"
    from Some fp t have "process_image os a s row = Inr ?s'" by (simp add: process_image_def)
    with te have "process_image os a s row = Inr ?s' \<and> total ?s' = total s + 1
        \<and> errors ?s' = errors s @ [report row e]" by simp
    then show ?thesis by blast
  qed
qed

lemma transfer_loop_total:
  assumes "ensure_prereqs a = None"
  shows "\<exists>s' new. transfer_loop os a rows s = Inr s' \<and> total s' = total s + length rows
           \<and> errors s' = errors s @ new"
proof (induction rows arbitrary: s)
  case Nil
  have "transfer_loop os a [] s = Inr s \<and> total s = total s + length ([] :: image_row list)
      \<and> errors s = errors s @ []" by simp
  then show ?case by blast
next
  case (Cons row rows)
  from process_image_total [OF assms, of os s row] obtain s1 n1
    where p: "process_image os a s row = Inr s1" "total s1 = total s + 1"
      "errors s1 = errors s @ n1" by blast
  from Cons.IH [of s1] obtain s' n2
    where l: "transfer_loop os a rows s1 = Inr s'" "total s' = total s1 + length rows"
      "errors s' = errors s1 @ n2" by blast
  from p l have "transfer_loop os a (row # rows) s = Inr s'
      \<and> total s' = total s + length (row # rows) \<and> errors s' = errors s @ (n1 @ n2)"
    by simp
  then show ?case by blast
qed

lemmas img_eval = process_image_def transfer_def fetch_step_def upload_step_def
  cleanup_step_def download_image_def upload_image_def run_curl_def resolve_upload_url_def
  given_def local_path_of_def abs_scripts_path_def path_join_def startswith_def dirname_def
  basename_def rstrip_chars_def lstrip_chars_def join_url_def download_cmd_def upload_cmd_def
  cookie_text_def failure_text_def py_strip_def py_isspace_def str_int_def report_def
  start_def example_os_def example_args_def example_image_def ensure_prereqs_def

text \<open>
  C7. When the arguments passed the check, \<open>skip_download\<close> is set and the local file of
  an image exists, processing the image makes no download call (neither a directory
  nor a fetch command, run or printed): the first call it makes is the upload command
  for the resolved URL, followed at most by the removal of the local file. The skipped
  count goes up by one and the downloaded count stays.
\<close>

theorem skip_download_uploads:
  assumes pre: "ensure_prereqs a = None"
    and skip: "skip_download a"
    and there: "path_exists os (world s) (local_path_of os a row)"
  shows "\<exists>s' url tail.
      process_image os a s row = Inr s' \<and>
      resolve_upload_url a (artwork_id row) = Inr url \<and>
      calls s' = calls s @
        issued (dry_run a) (upload_cmd url (cookie_text (cookie a)) (upload_field_file a)
          (local_path_of os a row) (upload_field_is_main a) (is_main_image row)) # tail \<and>
      set tail \<subseteq> {Remove (local_path_of os a row)} \<and>
      (\<forall>u p. issued (dry_run a) (download_cmd u p) \<notin> set (drop (length (calls s)) (calls s'))) \<and>
      (\<forall>d. Makedirs d \<notin> set (drop (length (calls s)) (calls s'))) \<and>
      skipped_download s' = skipped_download s + 1 \<and>
      downloaded s' = downloaded s"
proof -
  let ?lp = "local_path_of os a row"
  from prereqs_fetch_prefix [OF pre] obtain prefix where fp: "fetch_prefix a = Some prefix"
    by blast
  from prereqs_resolve [OF pre] obtain url where url: "resolve_upload_url a (artwork_id row) = Inr url"
    by blast
  let ?furl = "join_url prefix (image_path row)"
  let ?cmd = "upload_cmd url (cookie_text (cookie a)) (upload_field_file a) ?lp
      (upload_field_is_main a) (is_main_image row)"
  let ?call = "issued (dry_run a) ?cmd"
  let ?s0 = "s\<lparr>total := total s + 1\<rparr>"
  let ?s1 = "?s0\<lparr>skipped_download := skipped_download ?s0 + 1\<rparr>"
  from skip there have fs: "fetch_step os a ?furl ?lp ?s0 = (?s1, None)"
    by (simp add: fetch_step_def)
  obtain t r where up: "upload_image os url (cookie_text (cookie a)) (upload_field_file a) ?lp
      (upload_field_is_main a) (is_main_image row) (dry_run a) ?s1 = (t, r)"
    by (cases "upload_image os url (cookie_text (cookie a)) (upload_field_file a) ?lp
      (upload_field_is_main a) (is_main_image row) (dry_run a) ?s1")
  from upload_image_effect [OF up]
  have tc: "calls t = calls s @ [?call]"
    and tk: "skipped_download t = skipped_download s + 1"
    and td: "downloaded t = downloaded s"
    by (simp_all add: same_counts_def)
  have nocall: "\<forall>u p. issued (dry_run a) (download_cmd u p) \<noteq> ?call"
    by (simp add: issued_def upload_not_download)
  have nomk: "\<forall>d. Makedirs d \<noteq> ?call" by (simp add: issued_def)
  show ?thesis
  proof (cases r)
    case (Some e)
    with up url have "upload_step os a row ?lp ?s1 = (t, Some e)"
      by (simp add: upload_step_def)
    with fs have "transfer os a row ?furl ?lp ?s0 = (t, Some e)"
      by (simp add: transfer_def)
    with fp have p: "process_image os a s row = Inr (t\<lparr>errors := errors t @ [report row e]\<rparr>)"
      by (simp add: process_image_def)
    let ?s' = "t\<lparr>errors := errors t @ [report row e]\<rparr>"
    have "calls ?s' = calls s @ ?call # []" using tc by simp
    moreover have "set ([] :: call list) \<subseteq> {Remove ?lp}" by simp
    moreover have "\<forall>u p. issued (dry_run a) (download_cmd u p)
        \<notin> set (drop (length (calls s)) (calls ?s'))"
      using tc nocall by simp
    moreover have "\<forall>d. Makedirs d \<notin> set (drop (length (calls s)) (calls ?s'))"
      using tc nomk by simp
    moreover have "skipped_download ?s' = skipped_download s + 1" using tk by simp
    moreover have "downloaded ?s' = downloaded s" using td by simp
    ultimately have "process_image os a s row = Inr ?s' \<and>
      resolve_upload_url a (artwork_id row) = Inr url \<and>
      calls ?s' = calls s @ ?call # [] \<and>
      set ([] :: call list) \<subseteq> {Remove ?lp} \<and>
      (\<forall>u p. issued (dry_run a) (download_cmd u p) \<notin> set (drop (length (calls s)) (calls ?s'))) \<and>
      (\<forall>d. Makedirs d \<notin> set (drop (length (calls s)) (calls ?s'))) \<and>
      skipped_download ?s' = skipped_download s + 1 \<and>
      downloaded ?s' = downloaded s"
      using p url by (intro conjI)
    then show ?thesis by (intro exI)
  next
    case None
    let ?t1 = "t\<lparr>uploaded := uploaded t + 1\<rparr>"
    from None up url have "upload_step os a row ?lp ?s1 = (?t1, None)"
      by (simp add: upload_step_def)
    with fs have "transfer os a row ?furl ?lp ?s0 = (cleanup_step os a ?lp ?t1, None)"
      by (simp add: transfer_def)
    with fp have p: "process_image os a s row = Inr (cleanup_step os a ?lp ?t1)"
      by (simp add: process_image_def)
    let ?s' = "cleanup_step os a ?lp ?t1"
    from cleanup_step_effect [of os a ?lp ?t1] obtain tail
      where cc: "calls ?s' = calls ?t1 @ tail"
        and tail: "set tail \<subseteq> {Remove ?lp}"
        and same: "same_counts ?t1 ?s'" by blast
    from same have ck: "skipped_download ?s' = skipped_download ?t1"
      and cd: "downloaded ?s' = downloaded ?t1"
      by (simp_all add: same_counts_def)
    from cc tc have calls: "calls ?s' = calls s @ ?call # tail" by simp
    have new: "drop (length (calls s)) (calls ?s') = ?call # tail" unfolding calls by simp
    have "\<forall>u p. issued (dry_run a) (download_cmd u p)
        \<notin> set (drop (length (calls s)) (calls ?s'))"
      unfolding new using nocall tail by (auto simp: issued_def)
    moreover have "\<forall>d. Makedirs d \<notin> set (drop (length (calls s)) (calls ?s'))"
      unfolding new using nomk tail by auto
    moreover have "skipped_download ?s' = skipped_download s + 1" using ck tk by simp
    moreover have "downloaded ?s' = downloaded s" using cd td by simp
    ultimately have "process_image os a s row = Inr ?s' \<and>
      resolve_upload_url a (artwork_id row) = Inr url \<and>
      calls ?s' = calls s @ ?call # tail \<and>
      set tail \<subseteq> {Remove ?lp} \<and>
      (\<forall>u p. issued (dry_run a) (download_cmd u p) \<notin> set (drop (length (calls s)) (calls ?s'))) \<and>
      (\<forall>d. Makedirs d \<notin> set (drop (length (calls s)) (calls ?s'))) \<and>
      skipped_download ?s' = skipped_download s + 1 \<and>
      downloaded ?s' = downloaded s"
      using p url calls tail by (intro conjI)
    then show ?thesis by (intro exI)
  qed
qed

theorem skip_download_uploads_witness:
  "ensure_prereqs example_args = None \<and>
   skip_download example_args \<and>
   path_exists example_os (world (start [''/srv/scripts/images/a/y.png'']))
     (local_path_of example_os example_args (example_image 8 ''a/y.png'')) \<and>
   process_image example_os example_args (start [''/srv/scripts/images/a/y.png''])
       (example_image 8 ''a/y.png'')
     = Inr \<lparr>world = [''/srv/scripts/images/a/y.png''],
            calls = [Run [''curl'', ''-sS'', ''-fL'', ''-X'', ''POST'', ''-H'',
                          ''Cookie: access_token=t'', ''-F'',
                          ''image=@/srv/scripts/images/a/y.png'', ''-F'',
                          ''is_main_image=true'',
                          ''https://api.example.com/artworks/a1/images'']],
            total = 1, downloaded = 0, uploaded = 1, skipped_download = 1, errors = []\<rparr> \<and>
   (\<exists>s' url tail.
      process_image example_os example_args (start [''/srv/scripts/images/a/y.png''])
        (example_image 8 ''a/y.png'') = Inr s' \<and>
      resolve_upload_url example_args (artwork_id (example_image 8 ''a/y.png'')) = Inr url \<and>
      calls s' = calls (start [''/srv/scripts/images/a/y.png'']) @
        issued (dry_run example_args)
          (upload_cmd url (cookie_text (cookie example_args)) (upload_field_file example_args)
            (local_path_of example_os example_args (example_image 8 ''a/y.png''))
            (upload_field_is_main example_args)
            (is_main_image (example_image 8 ''a/y.png''))) # tail \<and>
      skipped_download s' = skipped_download (start [''/srv/scripts/images/a/y.png'']) + 1 \<and>
      downloaded s' = downloaded (start [''/srv/scripts/images/a/y.png'']))"
proof -
  let ?s = "start [''/srv/scripts/images/a/y.png'']"
  let ?row = "example_image 8 ''a/y.png''"
  have h1: "ensure_prereqs example_args = None"
    by (simp add: ensure_prereqs_def example_args_def given_def)
  have h2: "skip_download example_args" by (simp add: example_args_def)
  have h3: "path_exists example_os (world ?s) (local_path_of example_os example_args ?row)"
    by (simp add: img_eval)
  have ev: "process_image example_os example_args ?s ?row
     = Inr \<lparr>world = [''/srv/scripts/images/a/y.png''],
            calls = [Run [''curl'', ''-sS'', ''-fL'', ''-X'', ''POST'', ''-H'',
                          ''Cookie: access_token=t'', ''-F'',
                          ''image=@/srv/scripts/images/a/y.png'', ''-F'',
                          ''is_main_image=true'',
                          ''https://api.example.com/artworks/a1/images'']],
            total = 1, downloaded = 0, uploaded = 1, skipped_download = 1, errors = []\<rparr>"
    by (simp add: img_eval)
  from skip_download_uploads [OF h1 h2 h3]
  have "\<exists>s' url tail.
      process_image example_os example_args ?s ?row = Inr s' \<and>
      resolve_upload_url example_args (artwork_id ?row) = Inr url \<and>
      calls s' = calls ?s @
        issued (dry_run example_args)
          (upload_cmd url (cookie_text (cookie example_args)) (upload_field_file example_args)
            (local_path_of example_os example_args ?row)
            (upload_field_is_main example_args) (is_main_image ?row)) # tail \<and>
      skipped_download s' = skipped_download ?s + 1 \<and>
      downloaded s' = downloaded ?s"
    by blast
  with h1 h2 h3 ev show ?thesis by (intro conjI)
qed

lemma download_image_calls:
  assumes "download_image os url path dry s = (s', r)"
  shows "calls s' = calls s @ [Makedirs (dirname path)] \<or>
         calls s' = calls s @ [Makedirs (dirname path), issued dry (download_cmd url path)]"
proof -
  obtain w m where mk: "makedirs os (world s) (dirname path) = (w, m)"
    by (cases "makedirs os (world s) (dirname path)")
  show ?thesis
  proof (cases m)
    case (Some msg)
    with mk assms have "s' = s\<lparr>world := w, calls := calls s @ [Makedirs (dirname path)]\<rparr>"
      by (auto simp: download_image_def)
    then show ?thesis by simp
  next
    case None
    let ?s1 = "s\<lparr>world := w, calls := calls s @ [Makedirs (dirname path)]\<rparr>"
    obtain t q where rc: "run_curl os (download_cmd url path) dry ?s1 = (t, q)"
      by (cases "run_curl os (download_cmd url path) dry ?s1")
    with mk None assms have "s' = t"
      by (auto simp: download_image_def split: sum.splits prod.splits if_splits)
    with run_curl_effect [OF rc] show ?thesis by simp
  qed
qed

text \<open>
  C8. Let the arguments have passed the check, and let an image fail: either its
  download is attempted and \<open>download_image\<close> raises, or its download went through (or
  was skipped) and \<open>upload_image\<close> raises. Then processing the image ends in the very
  state in which the failing call raised, with one more error line, which names the
  image's id and path: nothing else is called or counted for this image. After a
  failed download the only calls made for it are the directory call and at most the
  fetch command (no upload, no removal), and neither the downloaded nor the uploaded
  count moves; after a failed upload the upload command is its last call (no removal)
  and the uploaded count does not move. The loop goes on with the next image from that
  state and ends normally, with every image counted in the total and the line among the
  error lines. What the remaining images do is fixed by the world the failure left: the
  calls, counts and lines they add are the same from any state with that world. And no
  list of images makes \<open>main\<close> end by an exception.
\<close>

theorem asset_failure_isolated:
  assumes pre: "ensure_prereqs a = None"
    and fp: "fetch_prefix a = Some prefix"
    and fail:
      "(\<not> (skip_download a \<and> path_exists os (world s) (local_path_of os a row)) \<and>
        download_image os (join_url prefix (image_path row)) (local_path_of os a row)
          (dry_run a) (s\<lparr>total := total s + 1\<rparr>) = (s2, Some e))
       \<or>
       (fetch_step os a (join_url prefix (image_path row)) (local_path_of os a row)
          (s\<lparr>total := total s + 1\<rparr>) = (s1, None) \<and>
        resolve_upload_url a (artwork_id row) = Inr url \<and>
        upload_image os url (cookie_text (cookie a)) (upload_field_file a)
          (local_path_of os a row) (upload_field_is_main a) (is_main_image row) (dry_run a) s1
          = (s2, Some e))"
  shows "process_image os a s row = Inr (s2\<lparr>errors := errors s2 @ [report row e]\<rparr>) \<and>
         transfer_loop os a (row # rest) s
           = transfer_loop os a rest (s2\<lparr>errors := errors s2 @ [report row e]\<rparr>) \<and>
         uploaded s2 = uploaded s \<and>
         (\<not> (skip_download a \<and> path_exists os (world s) (local_path_of os a row)) \<and>
          download_image os (join_url prefix (image_path row)) (local_path_of os a row)
            (dry_run a) (s\<lparr>total := total s + 1\<rparr>) = (s2, Some e) \<longrightarrow>
            downloaded s2 = downloaded s \<and> skipped_download s2 = skipped_download s \<and>
            (calls s2 = calls s @ [Makedirs (dirname (local_path_of os a row))] \<or>
             calls s2 = calls s @ [Makedirs (dirname (local_path_of os a row)),
                issued (dry_run a)
                  (download_cmd (join_url prefix (image_path row)) (local_path_of os a row))])) \<and>
         (fetch_step os a (join_url prefix (image_path row)) (local_path_of os a row)
            (s\<lparr>total := total s + 1\<rparr>) = (s1, None) \<and>
          resolve_upload_url a (artwork_id row) = Inr url \<and>
          upload_image os url (cookie_text (cookie a)) (upload_field_file a)
            (local_path_of os a row) (upload_field_is_main a) (is_main_image row) (dry_run a) s1
            = (s2, Some e) \<longrightarrow>
            calls s2 = calls s1 @
              [issued (dry_run a) (upload_cmd url (cookie_text (cookie a)) (upload_field_file a)
                 (local_path_of os a row) (upload_field_is_main a) (is_main_image row))]) \<and>
         (\<exists>s'. transfer_loop os a (row # rest) s = Inr s' \<and>
               total s' = total s + length (row # rest) \<and>
               report row e \<in> set (errors s')) \<and>
         (\<forall>t. world t = world s2 \<longrightarrow>
               transfer_loop os a rest t =
                 (case transfer_loop os a rest (start (world s2)) of
                    Inl x \<Rightarrow> Inl x
                  | Inr d \<Rightarrow> Inr (rebase t d))) \<and>
         (\<forall>before w. \<exists>s'. main_images os a (before @ row # rest) w = Inr s' \<and>
               total s' = length (before @ row # rest)) \<and>
         (\<exists>x y. report row e =
               x @ str_int (image_id row) @ y @ image_path row @ [CHR 0x27] @ '': '' @ exn_str e)"
proof -
  let ?lp = "local_path_of os a row"
  let ?furl = "join_url prefix (image_path row)"
  let ?s0 = "s\<lparr>total := total s + 1\<rparr>"
  let ?D = "\<not> (skip_download a \<and> path_exists os (world s) ?lp) \<and>
        download_image os ?furl ?lp (dry_run a) ?s0 = (s2, Some e)"
  let ?U = "fetch_step os a ?furl ?lp ?s0 = (s1, None) \<and>
        resolve_upload_url a (artwork_id row) = Inr url \<and>
        upload_image os url (cookie_text (cookie a)) (upload_field_file a)
          ?lp (upload_field_is_main a) (is_main_image row) (dry_run a) s1 = (s2, Some e)"
  let ?s3 = "s2\<lparr>errors := errors s2 @ [report row e]\<rparr>"
  have tr: "transfer os a row ?furl ?lp ?s0 = (s2, Some e)"
  proof -
    from fail have "?D \<or> ?U" .
    then show ?thesis
    proof
      assume d: ?D
      then have "\<not> (skip_download a \<and> path_exists os (world ?s0) ?lp)" by simp
      with d have "fetch_step os a ?furl ?lp ?s0 = (s2, Some e)"
        by (auto simp: fetch_step_def)
      then show ?thesis by (simp add: transfer_def)
    next
      assume u: ?U
      then have "upload_step os a row ?lp s1 = (s2, Some e)" by (simp add: upload_step_def)
      with u show ?thesis by (simp add: transfer_def)
    qed
  qed
  from fp tr have c0: "process_image os a s row = Inr ?s3" by (simp add: process_image_def)
  then have c1: "transfer_loop os a (row # rest) s = transfer_loop os a rest ?s3" by simp
  from transfer_effect [OF tr] have c2: "uploaded s2 = uploaded s"
    and t2: "total s2 = total s + 1" by simp_all
  have cD: "?D \<longrightarrow>
      downloaded s2 = downloaded s \<and> skipped_download s2 = skipped_download s \<and>
      (calls s2 = calls s @ [Makedirs (dirname ?lp)] \<or>
       calls s2 = calls s @ [Makedirs (dirname ?lp),
          issued (dry_run a) (download_cmd ?furl ?lp)])"
  proof
    assume d: ?D
    then have dl: "download_image os ?furl ?lp (dry_run a) ?s0 = (s2, Some e)" by simp
    from download_image_effect [OF dl]
    have "downloaded s2 = downloaded s" "skipped_download s2 = skipped_download s"
      by (simp_all add: same_counts_def)
    moreover from download_image_calls [OF dl]
    have "calls s2 = calls s @ [Makedirs (dirname ?lp)] \<or>
       calls s2 = calls s @ [Makedirs (dirname ?lp),
          issued (dry_run a) (download_cmd ?furl ?lp)]" by simp
    ultimately show "downloaded s2 = downloaded s \<and> skipped_download s2 = skipped_download s \<and>
      (calls s2 = calls s @ [Makedirs (dirname ?lp)] \<or>
       calls s2 = calls s @ [Makedirs (dirname ?lp),
          issued (dry_run a) (download_cmd ?furl ?lp)])" by (intro conjI)
  qed
  have cU: "?U \<longrightarrow> calls s2 = calls s1 @
      [issued (dry_run a) (upload_cmd url (cookie_text (cookie a)) (upload_field_file a)
         ?lp (upload_field_is_main a) (is_main_image row))]"
  proof
    assume u: ?U
    then have up: "upload_image os url (cookie_text (cookie a)) (upload_field_file a)
          ?lp (upload_field_is_main a) (is_main_image row) (dry_run a) s1 = (s2, Some e)"
      by simp
    from upload_image_effect [OF up]
    show "calls s2 = calls s1 @
      [issued (dry_run a) (upload_cmd url (cookie_text (cookie a)) (upload_field_file a)
         ?lp (upload_field_is_main a) (is_main_image row))]" by simp
  qed
  from transfer_loop_total [OF pre, of os rest ?s3] obtain s' new
    where l: "transfer_loop os a rest ?s3 = Inr s'" "total s' = total ?s3 + length rest"
      "errors s' = errors ?s3 @ new" by blast
  from l(3) have "report row e \<in> set (errors s')" by simp
  with c1 l t2 have "transfer_loop os a (row # rest) s = Inr s' \<and>
      total s' = total s + length (row # rest) \<and> report row e \<in> set (errors s')" by simp
  then have c3: "\<exists>s'. transfer_loop os a (row # rest) s = Inr s' \<and>
      total s' = total s + length (row # rest) \<and> report row e \<in> set (errors s')" by blast
  have c4: "\<forall>t. world t = world s2 \<longrightarrow>
      transfer_loop os a rest t =
        (case transfer_loop os a rest (start (world s2)) of
           Inl x \<Rightarrow> Inl x | Inr d \<Rightarrow> Inr (rebase t d))"
  proof (intro allI impI)
    fix t :: "'a state"
    assume "world t = world s2"
    with transfer_loop_local [of os a rest t]
    show "transfer_loop os a rest t =
        (case transfer_loop os a rest (start (world s2)) of
           Inl x \<Rightarrow> Inl x | Inr d \<Rightarrow> Inr (rebase t d))" by simp
  qed
  have c5: "\<forall>before w. \<exists>s'. main_images os a (before @ row # rest) w = Inr s' \<and>
      total s' = length (before @ row # rest)"
  proof (intro allI)
    fix before :: "image_row list" and w :: 'a
    from transfer_loop_total [OF pre, of os "before @ row # rest" "start w"] obtain sf new
      where "transfer_loop os a (before @ row # rest) (start w) = Inr sf"
        "total sf = total (start w) + length (before @ row # rest)" by blast
    with pre have "main_images os a (before @ row # rest) w = Inr sf \<and>
        total sf = length (before @ row # rest)"
      by (simp add: main_images_def start_def)
    then show "\<exists>s'. main_images os a (before @ row # rest) w = Inr s' \<and>
        total s' = length (before @ row # rest)" by blast
  qed
  have "report row e = ([CHR 0x0A] @ ''Error processing image id='') @ str_int (image_id row)
      @ ('' path='' @ [CHR 0x27]) @ image_path row @ [CHR 0x27] @ '': '' @ exn_str e"
    by (simp add: report_def)
  then have c6: "\<exists>x y. report row e =
      x @ str_int (image_id row) @ y @ image_path row @ [CHR 0x27] @ '': '' @ exn_str e"
    by blast
  from c0 c1 c2 cD cU c3 c4 c5 c6 show ?thesis by (intro conjI)
qed

theorem asset_failure_isolated_witness:
  "ensure_prereqs example_args = None \<and>
   fetch_prefix example_args = Some ''https://old.example.com/media/'' \<and>
   \<not> (skip_download example_args \<and>
        path_exists example_os (world (start [''/srv/scripts/images/a/y.png'']))
          (local_path_of example_os example_args (example_image 7 ''a/x.png''))) \<and>
   download_image example_os
       (join_url ''https://old.example.com/media/'' (image_path (example_image 7 ''a/x.png'')))
       (local_path_of example_os example_args (example_image 7 ''a/x.png''))
       (dry_run example_args)
       (start [''/srv/scripts/images/a/y.png'']
          \<lparr>total := total (start [''/srv/scripts/images/a/y.png'']) + 1\<rparr>)
     = (\<lparr>world = [''/srv/scripts/images/a/y.png''],
          calls = [Makedirs ''/srv/scripts/images/a'',
                   Run [''curl'', ''-sS'', ''-fL'', ''https://old.example.com/media/a/x.png'',
                        ''-o'', ''/srv/scripts/images/a/x.png'']],
          total = 1, downloaded = 0, uploaded = 0, skipped_download = 0, errors = []\<rparr>,
        Some (RuntimeError
          ''Download failed (22) for https://old.example.com/media/a/x.png: 404'')) \<and>
   process_image example_os example_args (start [''/srv/scripts/images/a/y.png''])
       (example_image 7 ''a/x.png'')
     = Inr \<lparr>world = [''/srv/scripts/images/a/y.png''],
          calls = [Makedirs ''/srv/scripts/images/a'',
                   Run [''curl'', ''-sS'', ''-fL'', ''https://old.example.com/media/a/x.png'',
                        ''-o'', ''/srv/scripts/images/a/x.png'']],
          total = 1, downloaded = 0, uploaded = 0, skipped_download = 0,
          errors = [report (example_image 7 ''a/x.png'')
            (RuntimeError
              ''Download failed (22) for https://old.example.com/media/a/x.png: 404'')]\<rparr> \<and>
   (\<exists>s'. transfer_loop example_os example_args
            [example_image 7 ''a/x.png'', example_image 8 ''a/y.png'']
            (start [''/srv/scripts/images/a/y.png'']) = Inr s' \<and>
         total s' = 2 \<and> uploaded s' = 1 \<and>
         report (example_image 7 ''a/x.png'')
           (RuntimeError ''Download failed (22) for https://old.example.com/media/a/x.png: 404'')
           \<in> set (errors s'))"
proof -
  let ?w = "[''/srv/scripts/images/a/y.png'']"
  let ?x = "example_image 7 ''a/x.png''" and ?y = "example_image 8 ''a/y.png''"
  let ?e = "RuntimeError ''Download failed (22) for https://old.example.com/media/a/x.png: 404''"
  let ?s2 = "\<lparr>world = ?w,
          calls = [Makedirs ''/srv/scripts/images/a'',
                   Run [''curl'', ''-sS'', ''-fL'', ''https://old.example.com/media/a/x.png'',
                        ''-o'', ''/srv/scripts/images/a/x.png'']],
          total = 1, downloaded = 0, uploaded = 0, skipped_download = 0, errors = []\<rparr>"
  let ?P = "''https://old.example.com/media/''"
  have h1: "ensure_prereqs example_args = None"
    by (simp add: ensure_prereqs_def example_args_def given_def)
  have h2: "fetch_prefix example_args = Some ?P"
    by (simp add: example_args_def)
  have h3: "\<not> (skip_download example_args \<and>
        path_exists example_os (world (start ?w)) (local_path_of example_os example_args ?x))"
    by (simp add: img_eval)
  have h4: "download_image example_os (join_url ?P (image_path ?x))
       (local_path_of example_os example_args ?x) (dry_run example_args)
       (start ?w\<lparr>total := total (start ?w) + 1\<rparr>) = (?s2, Some ?e)"
    by (simp add: img_eval)
  from h3 h4 have fail:
    "(\<not> (skip_download example_args \<and>
          path_exists example_os (world (start ?w)) (local_path_of example_os example_args ?x)) \<and>
      download_image example_os (join_url ?P (image_path ?x))
        (local_path_of example_os example_args ?x) (dry_run example_args)
        (start ?w\<lparr>total := total (start ?w) + 1\<rparr>) = (?s2, Some ?e))
     \<or>
     (fetch_step example_os example_args (join_url ?P (image_path ?x))
        (local_path_of example_os example_args ?x)
        (start ?w\<lparr>total := total (start ?w) + 1\<rparr>) = (start ?w, None) \<and>
      resolve_upload_url example_args (artwork_id ?x) = Inr [] \<and>
      upload_image example_os [] (cookie_text (cookie example_args))
        (upload_field_file example_args) (local_path_of example_os example_args ?x)
        (upload_field_is_main example_args) (is_main_image ?x) (dry_run example_args)
        (start ?w) = (?s2, Some ?e))"
    by (intro disjI1 conjI)
  note th = asset_failure_isolated [OF h1 h2 fail, of "[?y]"]
  from th have p: "process_image example_os example_args (start ?w) ?x
      = Inr (?s2\<lparr>errors := errors ?s2 @ [report ?x ?e]\<rparr>)"
    by (rule conjunct1)
  from th have step: "transfer_loop example_os example_args [?x, ?y] (start ?w)
      = transfer_loop example_os example_args [?y] (?s2\<lparr>errors := errors ?s2 @ [report ?x ?e]\<rparr>)"
    by (rule conjunct1 [OF conjunct2])
  from th have ex: "\<exists>s'. transfer_loop example_os example_args [?x, ?y] (start ?w) = Inr s' \<and>
      total s' = total (start ?w) + length [?x, ?y] \<and> report ?x ?e \<in> set (errors s')"
    by (rule conjunct1 [OF conjunct2 [OF conjunct2 [OF conjunct2 [OF conjunct2 [OF conjunct2]]]]])
  from ex obtain s' where s': "transfer_loop example_os example_args [?x, ?y] (start ?w) = Inr s'"
    "total s' = total (start ?w) + length [?x, ?y]" "report ?x ?e \<in> set (errors s')" by blast
  have "transfer_loop example_os example_args [?y] (?s2\<lparr>errors := errors ?s2 @ [report ?x ?e]\<rparr>)
      = Inr s'" using step s'(1) by simp
  then have "uploaded s' = 1" by (auto simp add: img_eval)
  with s' have "transfer_loop example_os example_args [?x, ?y] (start ?w) = Inr s' \<and>
         total s' = 2 \<and> uploaded s' = 1 \<and> report ?x ?e \<in> set (errors s')"
    by (simp add: start_def)
  then have e2: "\<exists>s'. transfer_loop example_os example_args [?x, ?y] (start ?w) = Inr s' \<and>
         total s' = 2 \<and> uploaded s' = 1 \<and> report ?x ?e \<in> set (errors s')" by blast
  from p have p': "process_image example_os example_args (start ?w) ?x
     = Inr \<lparr>world = ?w,
          calls = [Makedirs ''/srv/scripts/images/a'',
                   Run [''curl'', ''-sS'', ''-fL'', ''https://old.example.com/media/a/x.png'',
                        ''-o'', ''/srv/scripts/images/a/x.png'']],
          total = 1, downloaded = 0, uploaded = 0, skipped_download = 0,
          errors = [report ?x ?e]\<rparr>" by simp
  from h1 h2 h3 h4 p' e2 show ?thesis by (intro conjI)
qed

end
